theory Spec2Isabelle
  imports Main "HOL-Library.Word" "HOL-Library.Multiset"
begin

unbundle bit_operations_syntax

section \<open>Values of the collaborating libraries\<close>

text \<open>
  The model follows \<^verbatim>\<open>src/raqm.c\<close>. Static functions keep their names without the
  leading underscore (\<^verbatim>\<open>_raqm_itemize\<close> is \<open>raqm_itemize\<close>); the static
  \<^verbatim>\<open>_raqm_shape\<close> is \<open>raqm_shape_runs\<close>, since the public \<^verbatim>\<open>raqm_shape\<close> has
  that name already. Fields are prefixed with the variable the code reaches them through
  (\<^verbatim>\<open>rq->text\<close> is \<open>rq_text\<close>, \<^verbatim>\<open>run->pos\<close> is \<open>run_pos\<close>,
  \<^verbatim>\<open>stack->size\<close> is \<open>stack_size\<close>).

  A result of type \<open>'a option\<close> is \<open>None\<close> where the C code would read or write outside
  an allocated array or dereference a null pointer. Indices of type \<^verbatim>\<open>int\<close> and
  \<^verbatim>\<open>FriBidiStrIndex\<close> are unbounded integers here: a paragraph is assumed to be shorter
  than \<open>2^31\<close> scalars, as the FriBidi calls of the code require.

  HarfBuzz, FriBidi and FreeType are not part of the repository. Their enumerations are
  written out with the values of their headers; their functions are the fields of the
  record \<open>collab\<close> further down.
\<close>

type_synonym hb_script = "32 word"
type_synonym FriBidiChar = "32 word"
type_synonym FriBidiLevel = int
type_synonym FriBidiStrIndex = int

text \<open>\<^verbatim>\<open>hb_script_t\<close> is a four-letter tag packed into 32 bits.\<close>

definition HB_SCRIPT_INVALID :: hb_script where
  "HB_SCRIPT_INVALID = 0"

definition HB_SCRIPT_COMMON :: hb_script where
  "HB_SCRIPT_COMMON = 0x5A797979"

definition HB_SCRIPT_INHERITED :: hb_script where
  "HB_SCRIPT_INHERITED = 0x5A696E68"

definition HB_SCRIPT_LATIN :: hb_script where
  "HB_SCRIPT_LATIN = 0x4C61746E"

definition HB_SCRIPT_ARABIC :: hb_script where
  "HB_SCRIPT_ARABIC = 0x41726162"

datatype hb_direction =
    HB_DIRECTION_INVALID
  | HB_DIRECTION_LTR
  | HB_DIRECTION_RTL
  | HB_DIRECTION_TTB
  | HB_DIRECTION_BTT

text \<open>
  \<^verbatim>\<open>HB_DIRECTION_IS_BACKWARD (dir)\<close> is \<^verbatim>\<open>((dir & ~2U) == 5)\<close> on the values
  LTR = 4, RTL = 5, TTB = 6, BTT = 7.
\<close>

fun HB_DIRECTION_IS_BACKWARD :: "hb_direction \<Rightarrow> bool" where
  "HB_DIRECTION_IS_BACKWARD HB_DIRECTION_RTL = True"
| "HB_DIRECTION_IS_BACKWARD HB_DIRECTION_BTT = True"
| "HB_DIRECTION_IS_BACKWARD d = False"

datatype raqm_direction_t =
    RAQM_DIRECTION_DEFAULT
  | RAQM_DIRECTION_RTL
  | RAQM_DIRECTION_LTR
  | RAQM_DIRECTION_TTB

datatype FriBidiParType = FRIBIDI_PAR_ON | FRIBIDI_PAR_LTR | FRIBIDI_PAR_RTL

text \<open>\<^verbatim>\<open>FRIBIDI_LEVEL_IS_RTL (lev)\<close> is \<^verbatim>\<open>((lev) & 1)\<close>.\<close>

definition FRIBIDI_LEVEL_IS_RTL :: "FriBidiLevel \<Rightarrow> bool" where
  "FRIBIDI_LEVEL_IS_RTL lev = (lev AND 1 \<noteq> 0)"

section \<open>The bracket stack of the script resolver\<close>

text \<open>
  \<^verbatim>\<open>raqm_stack_t\<close>: two arrays of \<open>capacity\<close> cells each. \<^verbatim>\<open>malloc\<close> leaves the cells
  indeterminate; they are filled with fixed values here. A cell is read at index
  \<open>stack_size\<close> only, after the push that made the size what it is has written it.
\<close>

record raqm_stack =
  stack_capacity :: nat
  stack_size :: nat
  stack_pair_index :: "int list"
  stack_scripts :: "hb_script list"

definition paired_len :: nat where
  "paired_len = 34"

definition paired_chars :: "FriBidiChar list" where
  "paired_chars =
    [0x0028, 0x0029,
     0x003c, 0x003e,
     0x005b, 0x005d,
     0x007b, 0x007d,
     0x00ab, 0x00bb,
     0x2018, 0x2019,
     0x201c, 0x201d,
     0x2039, 0x203a,
     0x3008, 0x3009,
     0x300a, 0x300b,
     0x300c, 0x300d,
     0x300e, 0x300f,
     0x3010, 0x3011,
     0x3014, 0x3015,
     0x3016, 0x3017,
     0x3018, 0x3019,
     0x301a, 0x301b]"

definition raqm_stack_new :: "nat \<Rightarrow> raqm_stack" where
  "raqm_stack_new max_size =
     \<lparr>stack_capacity = max_size, stack_size = 0,
      stack_pair_index = replicate max_size 0,
      stack_scripts = replicate max_size HB_SCRIPT_INVALID\<rparr>"

definition raqm_stack_pop :: "raqm_stack \<Rightarrow> bool \<times> raqm_stack" where
  "raqm_stack_pop stack =
     (if stack_size stack = 0 then (False, stack)
      else (True, stack\<lparr>stack_size := stack_size stack - 1\<rparr>))"

text \<open>The top is read at index \<open>size\<close>, not \<open>size - 1\<close>: the stack is one-based.\<close>

definition raqm_stack_top :: "raqm_stack \<Rightarrow> hb_script option" where
  "raqm_stack_top stack =
     (if stack_size stack = 0 then Some HB_SCRIPT_INVALID
      else if stack_size stack < length (stack_scripts stack)
      then Some (stack_scripts stack ! stack_size stack)
      else None)"

text \<open>
  The slot a push writes: the size is incremented first, so the element lands at index
  \<open>size + 1\<close> of both arrays.
\<close>

definition push_slot :: "raqm_stack \<Rightarrow> nat" where
  "push_slot stack = stack_size stack + 1"

definition raqm_stack_push :: "raqm_stack \<Rightarrow> hb_script \<Rightarrow> int \<Rightarrow> (bool \<times> raqm_stack) option" where
  "raqm_stack_push stack script pi =
     (if stack_size stack = stack_capacity stack then Some (False, stack)
      else if push_slot stack < length (stack_scripts stack) \<and>
              push_slot stack < length (stack_pair_index stack)
      then Some (True,
             stack\<lparr>stack_size := push_slot stack,
                   stack_scripts := (stack_scripts stack)[push_slot stack := script],
                   stack_pair_index := (stack_pair_index stack)[push_slot stack := pi]\<rparr>)
      else None)"

text \<open>
  The binary search of \<^verbatim>\<open>get_pair_index\<close>. \<open>lower + upper\<close> is never negative, so the
  C division by 2 is \<open>div\<close>.
\<close>

function get_pair_index_loop :: "FriBidiChar \<Rightarrow> int \<Rightarrow> int \<Rightarrow> int" where
  "get_pair_index_loop ch lower upper =
     (if lower \<le> upper then
        (if ch < paired_chars ! nat ((lower + upper) div 2)
         then get_pair_index_loop ch lower ((lower + upper) div 2 - 1)
         else if paired_chars ! nat ((lower + upper) div 2) < ch
         then get_pair_index_loop ch ((lower + upper) div 2 + 1) upper
         else (lower + upper) div 2)
      else - 1)"
  by pat_completeness auto
termination
  by (relation "measure (\<lambda>(ch, lower, upper). nat (upper - lower + 1))") auto

definition get_pair_index :: "FriBidiChar \<Rightarrow> int" where
  "get_pair_index ch = get_pair_index_loop ch 0 (int paired_len - 1)"

definition STACK_IS_EMPTY :: "raqm_stack \<Rightarrow> bool" where
  "STACK_IS_EMPTY stack = (stack_size stack \<le> 0)"

definition STACK_IS_NOT_EMPTY :: "raqm_stack \<Rightarrow> bool" where
  "STACK_IS_NOT_EMPTY stack = (\<not> STACK_IS_EMPTY stack)"

definition IS_OPEN :: "int \<Rightarrow> bool" where
  "IS_OPEN pair_index = (pair_index AND 1 = 0)"

section \<open>Script resolution\<close>

text \<open>The local variables of \<^verbatim>\<open>_raqm_resolve_scripts\<close> and the array it fills.\<close>

record resolve_state =
  last_script_index :: int
  last_set_index :: int
  last_script_value :: hb_script
  rs_stack :: raqm_stack
  rs_scripts :: "hb_script list"

text \<open>
  The loop of the closing bracket: pop while the stack is not empty and the pair index
  on top is not the one looked for.
\<close>

function pop_until :: "int \<Rightarrow> raqm_stack \<Rightarrow> raqm_stack option" where
  "pop_until pi stack =
     (if STACK_IS_NOT_EMPTY stack then
        (if stack_size stack < length (stack_pair_index stack) then
           (if stack_pair_index stack ! stack_size stack \<noteq> pi
            then pop_until pi (snd (raqm_stack_pop stack))
            else Some stack)
         else None)
      else Some stack)"
  by pat_completeness auto
termination
  by (relation "measure (\<lambda>(pi, stack). stack_size stack)")
     (auto simp: raqm_stack_pop_def STACK_IS_NOT_EMPTY_def STACK_IS_EMPTY_def)

text \<open>
  The loop of the last branch:
  \<^verbatim>\<open>for (int j = last_set_index + 1; j < i; ++j) rq->scripts[j] = rq->scripts[i];\<close>
\<close>

function backfill :: "hb_script list \<Rightarrow> int \<Rightarrow> int \<Rightarrow> hb_script list" where
  "backfill scripts j i =
     (if j < i then backfill (scripts[nat j := scripts ! nat i]) (j + 1) i else scripts)"
  by pat_completeness auto
termination
  by (relation "measure (\<lambda>(scripts, j, i). nat (i - j))") auto

text \<open>One iteration of the main loop, at position \<open>i\<close>.\<close>

definition resolve_step :: "FriBidiChar list \<Rightarrow> nat \<Rightarrow> resolve_state \<Rightarrow> resolve_state option" where
  "resolve_step txt i st =
     (if rs_scripts st ! i = HB_SCRIPT_COMMON \<and> last_script_index st \<noteq> - 1 then
        (let pair_index = get_pair_index (txt ! i) in
         if pair_index \<ge> 0 then
           (if IS_OPEN pair_index then
              (let scripts = (rs_scripts st)[i := last_script_value st] in
               case raqm_stack_push (rs_stack st) (scripts ! i) pair_index of
                 None \<Rightarrow> None
               | Some (pushed, stack) \<Rightarrow>
                   Some (st\<lparr>rs_scripts := scripts, last_set_index := int i, rs_stack := stack\<rparr>))
            else
              (let pi = pair_index AND NOT 1 in
               case pop_until pi (rs_stack st) of
                 None \<Rightarrow> None
               | Some stack \<Rightarrow>
                   if STACK_IS_NOT_EMPTY stack then
                     (case raqm_stack_top stack of
                        None \<Rightarrow> None
                      | Some top_script \<Rightarrow>
                          Some (st\<lparr>rs_stack := stack,
                                   rs_scripts := (rs_scripts st)[i := top_script],
                                   last_script_value := top_script,
                                   last_set_index := int i\<rparr>))
                   else
                     Some (st\<lparr>rs_stack := stack,
                              rs_scripts := (rs_scripts st)[i := last_script_value st],
                              last_set_index := int i\<rparr>)))
         else
           Some (st\<lparr>rs_scripts := (rs_scripts st)[i := last_script_value st],
                    last_set_index := int i\<rparr>))
      else if rs_scripts st ! i = HB_SCRIPT_INHERITED \<and> last_script_index st \<noteq> - 1 then
        Some (st\<lparr>rs_scripts := (rs_scripts st)[i := last_script_value st],
                 last_set_index := int i\<rparr>)
      else
        (let scripts = backfill (rs_scripts st) (last_set_index st + 1) (int i) in
         Some (st\<lparr>rs_scripts := scripts,
                  last_script_value := scripts ! i,
                  last_script_index := int i,
                  last_set_index := int i\<rparr>)))"

text \<open>\<^verbatim>\<open>for (int i = 0; i < (int) rq->text_len; i++)\<close>\<close>

function resolve_loop :: "FriBidiChar list \<Rightarrow> nat \<Rightarrow> resolve_state \<Rightarrow> resolve_state option" where
  "resolve_loop txt i st =
     (if i < length txt then
        (case resolve_step txt i st of
           None \<Rightarrow> None
         | Some st' \<Rightarrow> resolve_loop txt (Suc i) st')
      else Some st)"
  by pat_completeness auto
termination
  by (relation "measure (\<lambda>(txt, i, st). length txt - i)") auto

text \<open>
  The state before the first iteration: every position holds the script of its scalar
  (\<open>usc\<close> is \<^verbatim>\<open>hb_unicode_script\<close>), the stack is new with capacity \<^verbatim>\<open>text_len\<close>.
\<close>

definition resolve_init :: "(FriBidiChar \<Rightarrow> hb_script) \<Rightarrow> FriBidiChar list \<Rightarrow> resolve_state" where
  "resolve_init usc txt =
     \<lparr>last_script_index = - 1, last_set_index = - 1,
      last_script_value = HB_SCRIPT_INVALID,
      rs_stack = raqm_stack_new (length txt),
      rs_scripts = map usc txt\<rparr>"

text \<open>The array \<^verbatim>\<open>rq->scripts\<close> that \<^verbatim>\<open>_raqm_resolve_scripts\<close> leaves for a text.\<close>

definition resolved_scripts :: "(FriBidiChar \<Rightarrow> hb_script) \<Rightarrow> FriBidiChar list \<Rightarrow> hb_script list option" where
  "resolved_scripts usc txt = map_option rs_scripts (resolve_loop txt 0 (resolve_init usc txt))"

section \<open>The layout context\<close>

type_synonym FT_Face = nat
type_synonym hb_font_t = nat

text \<open>\<^verbatim>\<open>hb_feature_t\<close>: tag, value, start and end.\<close>

type_synonym hb_feature_t = "32 word \<times> 32 word \<times> 32 word \<times> 32 word"

record hb_glyph_info_t =
  info_codepoint :: "32 word"
  info_cluster :: "32 word"

record hb_glyph_position_t =
  position_x_advance :: int
  position_y_advance :: int
  position_x_offset :: int
  position_y_offset :: int

text \<open>What a shaped \<^verbatim>\<open>hb_buffer_t\<close> holds: the glyph infos and their positions.\<close>

type_synonym hb_buffer_t = "(hb_glyph_info_t \<times> hb_glyph_position_t) list"

record raqm_glyph_t =
  glyph_index :: "32 word"
  glyph_x_advance :: int
  glyph_y_advance :: int
  glyph_x_offset :: int
  glyph_y_offset :: int
  glyph_cluster :: "32 word"

record FriBidiRun =
  bidi_pos :: FriBidiStrIndex
  bidi_len :: FriBidiStrIndex
  bidi_level :: FriBidiLevel

text \<open>
  \<^verbatim>\<open>struct _raqm_run\<close>; the \<^verbatim>\<open>next\<close> pointer is the order of the list that holds
  the runs, and a null \<^verbatim>\<open>buffer\<close> or \<^verbatim>\<open>font\<close> is \<open>None\<close>.
\<close>

record raqm_run =
  run_pos :: FriBidiStrIndex
  run_len :: FriBidiStrIndex
  run_direction :: hb_direction
  run_script :: hb_script
  run_font :: "hb_font_t option"
  run_buffer :: "hb_buffer_t option"

text \<open>
  \<^verbatim>\<open>struct _raqm\<close>, without \<^verbatim>\<open>RAQM_MULTI_FONT\<close>. \<open>rq_text\<close> is the array
  \<^verbatim>\<open>text\<close> with its length \<^verbatim>\<open>text_len\<close>; a null \<^verbatim>\<open>scripts\<close>, \<^verbatim>\<open>font\<close> or
  \<^verbatim>\<open>glyphs\<close> is \<open>None\<close>, a null \<^verbatim>\<open>runs\<close> is the empty list.
\<close>

record raqm =
  rq_ref_count :: int
  rq_text :: "FriBidiChar list"
  rq_base_dir :: raqm_direction_t
  rq_features :: "hb_feature_t list"
  rq_scripts :: "hb_script list option"
  rq_font :: "hb_font_t option"
  rq_runs :: "raqm_run list"
  rq_glyphs :: "raqm_glyph_t list option"

text \<open>
  The functions of the libraries the code calls.
  \<^item> \<open>hb_unicode_script\<close>: the Unicode script of a scalar.
  \<^item> \<open>fribidi_get_par_embedding_levels\<close>, after \<^verbatim>\<open>fribidi_get_bidi_types\<close>: the value
    returned (negative on failure) and the level written for each position.
  \<^item> \<open>visual_order\<close>: the reordering of level runs into visual order.
  \<^item> \<open>hb_shape_full\<close> on a buffer that holds the item \<open>pos, len\<close> of the text with its
    script and direction: the status returned and the shaped buffer.
  \<^item> \<open>hb_feature_from_string\<close>: the parsed feature, \<open>None\<close> when the parser returns false.
  \<^item> \<open>fribidi_charset_to_unicode\<close> and \<open>fribidi_unicode_to_charset\<close> for UTF-8: the
    scalars decoded from bytes and the bytes encoded from scalars.
\<close>

record collab =
  hb_unicode_script :: "FriBidiChar \<Rightarrow> hb_script"
  fribidi_get_par_embedding_levels ::
    "FriBidiChar list \<Rightarrow> FriBidiParType \<Rightarrow> int \<times> (nat \<Rightarrow> FriBidiLevel)"
  visual_order :: "FriBidiRun list \<Rightarrow> FriBidiRun list"
  hb_shape_full ::
    "hb_font_t option \<Rightarrow> FriBidiChar list \<Rightarrow> FriBidiStrIndex \<Rightarrow> FriBidiStrIndex \<Rightarrow>
     hb_script \<Rightarrow> hb_direction \<Rightarrow> hb_feature_t list \<Rightarrow> bool \<times> hb_buffer_t"
  hb_feature_from_string :: "string \<Rightarrow> int \<Rightarrow> hb_feature_t option"
  fribidi_charset_to_unicode :: "8 word list \<Rightarrow> FriBidiChar list"
  fribidi_unicode_to_charset :: "FriBidiChar list \<Rightarrow> 8 word list"

definition raqm_create :: raqm where
  "raqm_create =
     \<lparr>rq_ref_count = 1, rq_text = [], rq_base_dir = RAQM_DIRECTION_DEFAULT,
      rq_features = [], rq_scripts = None, rq_font = None, rq_runs = [],
      rq_glyphs = None\<rparr>"

definition raqm_reference :: "raqm option \<Rightarrow> raqm option" where
  "raqm_reference rqp =
     (case rqp of
        None \<Rightarrow> None
      | Some rq \<Rightarrow> Some (rq\<lparr>rq_ref_count := rq_ref_count rq + 1\<rparr>))"

text \<open>The context that is left after \<^verbatim>\<open>raqm_destroy\<close>: none once it is freed.\<close>

definition raqm_destroy :: "raqm option \<Rightarrow> raqm option" where
  "raqm_destroy rqp =
     (case rqp of
        None \<Rightarrow> None
      | Some rq \<Rightarrow>
          if rq_ref_count rq - 1 \<noteq> 0 then Some (rq\<lparr>rq_ref_count := rq_ref_count rq - 1\<rparr>)
          else None)"

definition raqm_set_text :: "raqm option \<Rightarrow> FriBidiChar list \<Rightarrow> raqm option" where
  "raqm_set_text rqp txt =
     (case rqp of
        None \<Rightarrow> None
      | Some rq \<Rightarrow> Some (rq\<lparr>rq_text := txt\<rparr>))"

definition raqm_set_par_direction :: "raqm option \<Rightarrow> raqm_direction_t \<Rightarrow> raqm option" where
  "raqm_set_par_direction rqp dir =
     (case rqp of
        None \<Rightarrow> None
      | Some rq \<Rightarrow> Some (rq\<lparr>rq_base_dir := dir\<rparr>))"

text \<open>
  \<^verbatim>\<open>raqm_add_font_feature\<close> has no test of \<^verbatim>\<open>rq\<close>: when the parser accepts the
  feature, \<^verbatim>\<open>rq->features_len++\<close> dereferences it.
\<close>

definition raqm_add_font_feature ::
  "collab \<Rightarrow> raqm option \<Rightarrow> string \<Rightarrow> int \<Rightarrow> (bool \<times> raqm option) option" where
  "raqm_add_font_feature E rqp feature len =
     (case hb_feature_from_string E feature len of
        None \<Rightarrow> Some (False, rqp)
      | Some fea \<Rightarrow>
          (case rqp of
             None \<Rightarrow> None
           | Some rq \<Rightarrow> Some (True, Some (rq\<lparr>rq_features := rq_features rq @ [fea]\<rparr>))))"

definition HB_FT_FONT_CREATE :: "FT_Face \<Rightarrow> hb_font_t" where
  "HB_FT_FONT_CREATE face = face"

definition raqm_set_freetype_face :: "raqm option \<Rightarrow> FT_Face \<Rightarrow> nat \<Rightarrow> nat \<Rightarrow> raqm option" where
  "raqm_set_freetype_face rqp face start len =
     (case rqp of
        None \<Rightarrow> None
      | Some rq \<Rightarrow>
          if length (rq_text rq) = 0 \<or> start \<ge> length (rq_text rq) then Some rq
          else Some (rq\<lparr>rq_font := Some (HB_FT_FONT_CREATE face)\<rparr>))"

section \<open>Itemization\<close>

definition raqm_hb_dir :: "raqm \<Rightarrow> FriBidiLevel \<Rightarrow> hb_direction" where
  "raqm_hb_dir rq level =
     (if rq_base_dir rq = RAQM_DIRECTION_TTB then HB_DIRECTION_TTB
      else if FRIBIDI_LEVEL_IS_RTL level then HB_DIRECTION_RTL
      else HB_DIRECTION_LTR)"

definition par_type_of :: "raqm \<Rightarrow> FriBidiParType" where
  "par_type_of rq =
     (if rq_base_dir rq = RAQM_DIRECTION_RTL then FRIBIDI_PAR_RTL
      else if rq_base_dir rq = RAQM_DIRECTION_LTR then FRIBIDI_PAR_LTR
      else FRIBIDI_PAR_ON)"

text \<open>
  \<^verbatim>\<open>max_level\<close> and the array \<^verbatim>\<open>levels\<close> of \<^verbatim>\<open>text_len\<close> entries, as the first
  part of \<^verbatim>\<open>_raqm_itemize\<close> leaves them.
\<close>

definition bidi_levels :: "collab \<Rightarrow> raqm \<Rightarrow> int \<times> FriBidiLevel list" where
  "bidi_levels E rq =
     (if rq_base_dir rq = RAQM_DIRECTION_TTB
      then (0, replicate (length (rq_text rq)) 0)
      else (fst (fribidi_get_par_embedding_levels E (rq_text rq) (par_type_of rq)),
            map (snd (fribidi_get_par_embedding_levels E (rq_text rq) (par_type_of rq)))
              [0..<length (rq_text rq)]))"

text \<open>
  The maximal spans of equal neighbours of a list whose first element stands at position
  \<open>p\<close>: start, length and the value of each span.
\<close>

function maximal_spans :: "nat \<Rightarrow> 'a list \<Rightarrow> (nat \<times> nat \<times> 'a) list" where
  "maximal_spans p [] = []"
| "maximal_spans p (x # xs) =
     (p, Suc (length (takeWhile (\<lambda>y. y = x) xs)), x) #
     maximal_spans (p + Suc (length (takeWhile (\<lambda>y. y = x) xs))) (dropWhile (\<lambda>y. y = x) xs)"
  by pat_completeness auto
termination
  by (relation "measure (\<lambda>(p, xs). length xs)") (auto simp: less_Suc_eq_le length_dropWhile_le)

definition level_run :: "nat \<times> nat \<times> FriBidiLevel \<Rightarrow> FriBidiRun" where
  "level_run s = \<lparr>bidi_pos = int (fst s), bidi_len = int (fst (snd s)), bidi_level = snd (snd s)\<rparr>"

text \<open>
  Modelled from the spec: \<^verbatim>\<open>fribidi_reorder_runs\<close> is declared in \<^verbatim>\<open>reorder_runs.h\<close>
  and its code is not among the sources. The spec (section 4.2) has it "produce
  visual-order bidi runs grouping maximal spans of equal level", none of them of length
  zero; how visual order is computed is left to the reordering collaborator
  \<open>visual_order\<close>.
\<close>

definition fribidi_reorder_runs :: "collab \<Rightarrow> FriBidiLevel list \<Rightarrow> FriBidiRun list" where
  "fribidi_reorder_runs E levels = visual_order E (map level_run (maximal_spans 0 levels))"

definition array_read :: "'a list \<Rightarrow> int \<Rightarrow> 'a option" where
  "array_read xs i = (if 0 \<le> i \<and> i < int (length xs) then Some (xs ! nat i) else None)"

text \<open>\<^verbatim>\<open>rq->scripts[i]\<close>\<close>

definition script_at :: "raqm \<Rightarrow> int \<Rightarrow> hb_script option" where
  "script_at rq i = (case rq_scripts rq of None \<Rightarrow> None | Some scripts \<Rightarrow> array_read scripts i)"

text \<open>A run fresh from \<^verbatim>\<open>calloc (1, sizeof (raqm_run_t))\<close>: every field is zero.\<close>

definition calloc_run :: raqm_run where
  "calloc_run =
     \<lparr>run_pos = 0, run_len = 0, run_direction = HB_DIRECTION_INVALID,
      run_script = 0, run_font = None, run_buffer = None\<rparr>"

text \<open>
  The inner loops of \<^verbatim>\<open>_raqm_itemize\<close> over one bidi run. \<open>run\<close> is the run being
  extended and \<open>acc\<close> the runs linked before it, in list order.
\<close>

function split_backward ::
  "raqm \<Rightarrow> FriBidiRun \<Rightarrow> int \<Rightarrow> raqm_run \<Rightarrow> raqm_run list \<Rightarrow> raqm_run list option" where
  "split_backward rq brun j run acc =
     (if j \<ge> 0 then
        (case script_at rq (bidi_pos brun + j) of
           None \<Rightarrow> None
         | Some script \<Rightarrow>
             if script \<noteq> run_script run then
               split_backward rq brun (j - 1)
                 (calloc_run\<lparr>run_pos := bidi_pos brun + j, run_len := 1,
                    run_direction := raqm_hb_dir rq (bidi_level brun),
                    run_script := script\<rparr>)
                 (acc @ [run])
             else
               split_backward rq brun (j - 1)
                 (run\<lparr>run_len := run_len run + 1, run_pos := bidi_pos brun + j\<rparr>) acc)
      else Some (acc @ [run]))"
  by pat_completeness auto
termination
  by (relation "measure (\<lambda>(rq, brun, j, run, acc). nat (j + 1))") auto

function split_forward ::
  "raqm \<Rightarrow> FriBidiRun \<Rightarrow> int \<Rightarrow> raqm_run \<Rightarrow> raqm_run list \<Rightarrow> raqm_run list option" where
  "split_forward rq brun j run acc =
     (if j < bidi_len brun then
        (case script_at rq (bidi_pos brun + j) of
           None \<Rightarrow> None
         | Some script \<Rightarrow>
             if script \<noteq> run_script run then
               split_forward rq brun (j + 1)
                 (calloc_run\<lparr>run_pos := bidi_pos brun + j, run_len := 1,
                    run_direction := raqm_hb_dir rq (bidi_level brun),
                    run_script := script\<rparr>)
                 (acc @ [run])
             else
               split_forward rq brun (j + 1) (run\<lparr>run_len := run_len run + 1\<rparr>) acc)
      else Some (acc @ [run]))"
  by pat_completeness auto
termination
  by (relation "measure (\<lambda>(rq, brun, j, run, acc). nat (bidi_len brun - j))") auto

text \<open>The body of the loop over the bidi runs: the shape runs of one bidi run.\<close>

definition itemize_run :: "raqm \<Rightarrow> FriBidiRun \<Rightarrow> raqm_run list option" where
  "itemize_run rq brun =
     (let run = calloc_run\<lparr>run_direction := raqm_hb_dir rq (bidi_level brun)\<rparr> in
      if HB_DIRECTION_IS_BACKWARD (run_direction run) then
        (case script_at rq (bidi_pos brun + bidi_len brun - 1) of
           None \<Rightarrow> None
         | Some script \<Rightarrow>
             split_backward rq brun (bidi_len brun - 1)
               (run\<lparr>run_pos := bidi_pos brun + bidi_len brun - 1, run_script := script\<rparr>) [])
      else
        (case script_at rq (bidi_pos brun) of
           None \<Rightarrow> None
         | Some script \<Rightarrow>
             split_forward rq brun 0 (run\<lparr>run_pos := bidi_pos brun, run_script := script\<rparr>) []))"

text \<open>
  The loop over the bidi runs: each run's shape runs are linked behind those of the
  runs before it.
\<close>

fun itemize_runs :: "raqm \<Rightarrow> FriBidiRun list \<Rightarrow> raqm_run list option" where
  "itemize_runs rq [] = Some []"
| "itemize_runs rq (brun # bruns) =
     (case itemize_run rq brun of
        None \<Rightarrow> None
      | Some rs \<Rightarrow>
          (case itemize_runs rq bruns of
             None \<Rightarrow> None
           | Some rest \<Rightarrow> Some (rs @ rest)))"

text \<open>
  \<^verbatim>\<open>_raqm_resolve_scripts\<close>: nothing is computed when the context has a script array
  already.
\<close>

definition raqm_resolve_scripts :: "collab \<Rightarrow> raqm \<Rightarrow> (bool \<times> raqm) option" where
  "raqm_resolve_scripts E rq =
     (if rq_scripts rq \<noteq> None then Some (True, rq)
      else
        (case resolved_scripts (hb_unicode_script E) (rq_text rq) of
           None \<Rightarrow> None
         | Some scripts \<Rightarrow> Some (True, rq\<lparr>rq_scripts := Some scripts\<rparr>)))"

text \<open>
  \<^verbatim>\<open>_raqm_itemize\<close>. The new list becomes \<^verbatim>\<open>rq->runs\<close> only when that pointer is
  null (\<^verbatim>\<open>if (rq->runs == NULL) rq->runs = run;\<close>); \<^verbatim>\<open>last->next = NULL\<close> after the
  loop dereferences a null pointer when there was no bidi run.
\<close>

definition raqm_itemize :: "collab \<Rightarrow> raqm \<Rightarrow> (bool \<times> raqm) option" where
  "raqm_itemize E rq =
     (if fst (bidi_levels E rq) < 0 then Some (False, rq)
      else
        (case raqm_resolve_scripts E rq of
           None \<Rightarrow> None
         | Some (resolved, rq1) \<Rightarrow>
             if \<not> resolved then Some (False, rq1)
             else
               (case itemize_runs rq1 (fribidi_reorder_runs E (snd (bidi_levels E rq))) of
                  None \<Rightarrow> None
                | Some new_runs \<Rightarrow>
                    if fribidi_reorder_runs E (snd (bidi_levels E rq)) = [] then None
                    else Some (True,
                           rq1\<lparr>rq_runs := (if rq_runs rq1 = [] then new_runs else rq_runs rq1)\<rparr>))))"

section \<open>Shaping and the glyph array\<close>

text \<open>
  One iteration of \<^verbatim>\<open>_raqm_shape\<close>: a new buffer takes the place of the run's buffer
  and is shaped; the value \<^verbatim>\<open>hb_shape_full\<close> returns is not looked at.
\<close>

definition shape_run :: "collab \<Rightarrow> raqm \<Rightarrow> raqm_run \<Rightarrow> raqm_run" where
  "shape_run E rq run =
     run\<lparr>run_buffer :=
           Some (snd (hb_shape_full E (rq_font rq) (rq_text rq) (run_pos run) (run_len run)
                        (run_script run) (run_direction run) (rq_features rq)))\<rparr>"

definition raqm_shape_runs :: "collab \<Rightarrow> raqm \<Rightarrow> bool \<times> raqm" where
  "raqm_shape_runs E rq = (True, rq\<lparr>rq_runs := map (shape_run E rq) (rq_runs rq)\<rparr>)"

definition raqm_layout :: "collab \<Rightarrow> raqm option \<Rightarrow> (bool \<times> raqm option) option" where
  "raqm_layout E rqp =
     (case rqp of
        None \<Rightarrow> Some (False, None)
      | Some rq \<Rightarrow>
          if length (rq_text rq) = 0 then Some (False, Some rq)
          else
            (case raqm_itemize E rq of
               None \<Rightarrow> None
             | Some (itemized, rq1) \<Rightarrow>
                 if \<not> itemized then Some (False, Some rq1)
                 else if \<not> fst (raqm_shape_runs E rq1)
                 then Some (False, Some (snd (raqm_shape_runs E rq1)))
                 else Some (True, Some (snd (raqm_shape_runs E rq1)))))"

definition to_raqm_glyph :: "hb_glyph_info_t \<times> hb_glyph_position_t \<Rightarrow> raqm_glyph_t" where
  "to_raqm_glyph g =
     \<lparr>glyph_index = info_codepoint (fst g),
      glyph_x_advance = position_x_advance (snd g),
      glyph_y_advance = position_y_advance (snd g),
      glyph_x_offset = position_x_offset (snd g),
      glyph_y_offset = position_y_offset (snd g),
      glyph_cluster = info_cluster (fst g)\<rparr>"

text \<open>
  The copying loop of \<^verbatim>\<open>raqm_get_glyphs\<close>: the glyphs of the runs in list order. A run
  that was never shaped has a null buffer, which HarfBuzz would dereference.
\<close>

fun collect_glyphs :: "raqm_run list \<Rightarrow> raqm_glyph_t list option" where
  "collect_glyphs [] = Some []"
| "collect_glyphs (run # runs) =
     (case run_buffer run of
        None \<Rightarrow> None
      | Some buffer \<Rightarrow>
          (case collect_glyphs runs of
             None \<Rightarrow> None
           | Some rest \<Rightarrow> Some (map to_raqm_glyph buffer @ rest)))"

text \<open>
  \<^verbatim>\<open>raqm_get_glyphs\<close>: the context afterwards, the array returned (\<open>None\<close> for
  \<^verbatim>\<open>NULL\<close>) and the value stored in \<^verbatim>\<open>*length\<close> (\<open>None\<close> when nothing is stored).
  \<open>length_given\<close> says that the pointer \<^verbatim>\<open>length\<close> is not null.
\<close>

definition raqm_get_glyphs ::
  "raqm option \<Rightarrow> bool \<Rightarrow> (raqm option \<times> raqm_glyph_t list option \<times> nat option) option" where
  "raqm_get_glyphs rqp length_given =
     (case rqp of
        None \<Rightarrow> Some (None, None, None)
      | Some rq \<Rightarrow>
          if \<not> length_given then Some (Some rq, None, None)
          else
            (case collect_glyphs (rq_runs rq) of
               None \<Rightarrow> None
             | Some glyphs \<Rightarrow>
                 Some (Some (rq\<lparr>rq_glyphs := Some glyphs\<rparr>), Some glyphs, Some (length glyphs))))"

section \<open>The one-shot entry points\<close>

text \<open>
  The loop of \<^verbatim>\<open>raqm_shape_u32\<close> over the null-terminated array \<^verbatim>\<open>features\<close>; what
  \<^verbatim>\<open>raqm_add_font_feature\<close> returns is dropped.
\<close>

fun add_features :: "collab \<Rightarrow> raqm option \<Rightarrow> string list \<Rightarrow> raqm option option" where
  "add_features E rqp [] = Some rqp"
| "add_features E rqp (p # ps) =
     (case raqm_add_font_feature E rqp p (- 1) of
        None \<Rightarrow> None
      | Some (parsed, rqp') \<Rightarrow> add_features E rqp' ps)"

text \<open>
  \<^verbatim>\<open>raqm_shape_u32\<close>: the count returned and the array stored in \<^verbatim>\<open>*info\<close>
  (\<open>None\<close> for \<^verbatim>\<open>NULL\<close>). \<open>features\<close> is \<open>None\<close> for a null pointer.
\<close>

definition raqm_shape_u32 ::
  "collab \<Rightarrow> FriBidiChar list \<Rightarrow> FT_Face \<Rightarrow> raqm_direction_t \<Rightarrow> string list option \<Rightarrow>
   (nat \<times> raqm_glyph_t list option) option" where
  "raqm_shape_u32 E txt face direction features =
     (let rq0 = Some raqm_create;
          rq1 = raqm_set_text rq0 txt;
          rq2 = raqm_set_par_direction rq1 direction;
          rq3 = raqm_set_freetype_face rq2 face 0 (length txt);
          rq4 = raqm_set_freetype_face rq3 face 0 (length txt)
      in case (case features of None \<Rightarrow> Some rq4 | Some fs \<Rightarrow> add_features E rq4 fs) of
           None \<Rightarrow> None
         | Some rq5 \<Rightarrow>
             (case raqm_layout E rq5 of
                None \<Rightarrow> None
              | Some (laid_out, rq6) \<Rightarrow>
                  if laid_out then
                    (case raqm_get_glyphs rq6 True of
                       None \<Rightarrow> None
                     | Some (rq7, glyphs, stored) \<Rightarrow>
                         Some (case stored of None \<Rightarrow> 0 | Some n \<Rightarrow> n, glyphs))
                  else Some (0, None)))"

text \<open>
  \<^verbatim>\<open>_raqm_utf32_to_utf8_index\<close>: the length of the UTF-8 form of the first \<open>index\<close>
  scalars of the array \<open>unicode\<close>.
\<close>

definition raqm_utf32_to_utf8_index :: "collab \<Rightarrow> FriBidiChar list \<Rightarrow> 32 word \<Rightarrow> 32 word option" where
  "raqm_utf32_to_utf8_index E unicode index =
     (if unat index \<le> length unicode
      then Some (word_of_nat (length (fribidi_unicode_to_charset E (take (unat index) unicode))))
      else None)"

text \<open>
  \<^verbatim>\<open>for (i = 0; i < glyph_count; i++)
    info[i].cluster = _raqm_utf32_to_utf8_index (u32_str, info[i].cluster);\<close>
\<close>

function remap_clusters ::
  "collab \<Rightarrow> FriBidiChar list \<Rightarrow> nat \<Rightarrow> nat \<Rightarrow> raqm_glyph_t list \<Rightarrow> raqm_glyph_t list option" where
  "remap_clusters E u32_str i glyph_count info =
     (if i < glyph_count then
        (if i < length info then
           (case raqm_utf32_to_utf8_index E u32_str (glyph_cluster (info ! i)) of
              None \<Rightarrow> None
            | Some c \<Rightarrow>
                remap_clusters E u32_str (Suc i) glyph_count
                  (info[i := (info ! i)\<lparr>glyph_cluster := c\<rparr>]))
         else None)
      else Some info)"
  by pat_completeness auto
termination
  by (relation "measure (\<lambda>(E, u32_str, i, glyph_count, info). glyph_count - i)") auto

text \<open>
  The array \<^verbatim>\<open>u32_str\<close> of \<^verbatim>\<open>raqm_shape\<close>: \<^verbatim>\<open>calloc\<close> gives \<^verbatim>\<open>u8_size\<close> zero
  cells and the decoder fills the first \<^verbatim>\<open>u32_size\<close> of them.
\<close>

definition u32_buffer :: "collab \<Rightarrow> 8 word list \<Rightarrow> FriBidiChar list" where
  "u32_buffer E u8_str =
     fribidi_charset_to_unicode E u8_str @
     replicate (length u8_str - length (fribidi_charset_to_unicode E u8_str)) 0"

definition raqm_shape ::
  "collab \<Rightarrow> 8 word list \<Rightarrow> FT_Face \<Rightarrow> raqm_direction_t \<Rightarrow> string list option \<Rightarrow>
   (nat \<times> raqm_glyph_t list option) option" where
  "raqm_shape E u8_str face direction features =
     (let u32_str = u32_buffer E u8_str;
          u32_size = length (fribidi_charset_to_unicode E u8_str)
      in case raqm_shape_u32 E (take u32_size u32_str) face direction features of
           None \<Rightarrow> None
         | Some (glyph_count, None) \<Rightarrow> if glyph_count = 0 then Some (0, None) else None
         | Some (glyph_count, Some info) \<Rightarrow>
             (case remap_clusters E u32_str 0 glyph_count info of
                None \<Rightarrow> None
              | Some info' \<Rightarrow> Some (glyph_count, Some info')))"

section \<open>Notions the properties are stated with\<close>

text \<open>The logical positions a shape run and a bidi run cover.\<close>

definition run_positions :: "raqm_run \<Rightarrow> int list" where
  "run_positions run = [run_pos run..run_pos run + run_len run - 1]"

definition bidi_run_positions :: "FriBidiRun \<Rightarrow> int list" where
  "bidi_run_positions brun = [bidi_pos brun..bidi_pos brun + bidi_len brun - 1]"

text \<open>Start, length and script of a shape run, and the same of a span of a script array.\<close>

definition run_span :: "raqm_run \<Rightarrow> int \<times> int \<times> hb_script" where
  "run_span run = (run_pos run, run_len run, run_script run)"


text \<open>The opening and closing scalar of each pair of \<open>paired_chars\<close>.\<close>

fun bracket_pairs :: "FriBidiChar list \<Rightarrow> (FriBidiChar \<times> FriBidiChar) list" where
  "bracket_pairs (a # b # cs) = (a, b) # bracket_pairs cs"
| "bracket_pairs cs = []"

text \<open>
  A collaborator record that differs from \<open>E\<close> in the status the shaper reports only:
  \<open>status\<close> decides it, the shaped buffer stays.
\<close>

definition with_shaper_status ::
  "(hb_font_t option \<Rightarrow> FriBidiChar list \<Rightarrow> FriBidiStrIndex \<Rightarrow> FriBidiStrIndex \<Rightarrow>
    hb_script \<Rightarrow> hb_direction \<Rightarrow> hb_feature_t list \<Rightarrow> bool) \<Rightarrow> collab \<Rightarrow> collab" where
  "with_shaper_status status E =
     E\<lparr>hb_shape_full :=
         (\<lambda>font txt pos len script dir features.
            (status font txt pos len script dir features,
             snd (hb_shape_full E font txt pos len script dir features)))\<rparr>"

section \<open>Stand-ins for the collaborators on concrete paragraphs\<close>

text \<open>
  An excerpt of the Unicode script property: the basic Latin letters, the Arabic letters
  U+0621 to U+063A and U+0641 to U+064A, the combining marks U+0300 to U+036F
  (Inherited); every other scalar counts as Common here.
\<close>

definition script_excerpt :: "FriBidiChar \<Rightarrow> hb_script" where
  "script_excerpt c =
     (if (0x41 \<le> c \<and> c \<le> 0x5A) \<or> (0x61 \<le> c \<and> c \<le> 0x7A) then HB_SCRIPT_LATIN
      else if (0x0621 \<le> c \<and> c \<le> 0x063A) \<or> (0x0641 \<le> c \<and> c \<le> 0x064A) then HB_SCRIPT_ARABIC
      else if 0x0300 \<le> c \<and> c \<le> 0x036F then HB_SCRIPT_INHERITED
      else HB_SCRIPT_COMMON)"

text \<open>
  Embedding levels for paragraphs of strong characters in a left-to-right paragraph:
  level 1 for an Arabic letter, level 0 otherwise; the value returned is the highest
  level plus one. With levels 0 and 1 only, the level runs are in visual order already.
\<close>

definition levels_excerpt :: "FriBidiChar list \<Rightarrow> FriBidiParType \<Rightarrow> int \<times> (nat \<Rightarrow> FriBidiLevel)" where
  "levels_excerpt txt par_type =
     (if list_ex (\<lambda>c. script_excerpt c = HB_SCRIPT_ARABIC) txt then 2 else 1,
      \<lambda>i. if i < length txt \<and> script_excerpt (txt ! i) = HB_SCRIPT_ARABIC then 1 else 0)"

text \<open>
  A shaper that gives every scalar of the item one glyph: the scalar as glyph index,
  its position as cluster, an advance of 10 along the line; right-to-left items come out
  last scalar first.
\<close>

definition glyph_of_scalar :: "FriBidiChar list \<Rightarrow> nat \<Rightarrow> hb_glyph_info_t \<times> hb_glyph_position_t" where
  "glyph_of_scalar txt i =
     (\<lparr>info_codepoint = (if i < length txt then txt ! i else 0), info_cluster = word_of_nat i\<rparr>,
      \<lparr>position_x_advance = 10, position_y_advance = 0,
       position_x_offset = 0, position_y_offset = 0\<rparr>)"

definition shape_excerpt ::
  "hb_font_t option \<Rightarrow> FriBidiChar list \<Rightarrow> FriBidiStrIndex \<Rightarrow> FriBidiStrIndex \<Rightarrow>
   hb_script \<Rightarrow> hb_direction \<Rightarrow> hb_feature_t list \<Rightarrow> bool \<times> hb_buffer_t" where
  "shape_excerpt font txt pos len script dir features =
     (True,
      map (glyph_of_scalar txt)
        (if dir = HB_DIRECTION_RTL then rev [nat pos..<nat (pos + len)]
         else [nat pos..<nat (pos + len)]))"

text \<open>A feature parser that accepts the four-letter tags \<open>liga\<close> and \<open>kern\<close>.\<close>

definition feature_excerpt :: "string \<Rightarrow> int \<Rightarrow> hb_feature_t option" where
  "feature_excerpt feature len =
     (if feature = ''liga'' then Some (0x6C696761, 1, 0, 0xFFFFFFFF)
      else if feature = ''kern'' then Some (0x6B65726E, 1, 0, 0xFFFFFFFF)
      else None)"

text \<open>UTF-8 for scalars below U+10000 (one to three bytes).\<close>

definition utf8_encode_char :: "FriBidiChar \<Rightarrow> 8 word list" where
  "utf8_encode_char c =
     (if c < 0x80 then [ucast c]
      else if c < 0x800 then [ucast (0xC0 OR drop_bit 6 c), ucast (0x80 OR (c AND 0x3F))]
      else [ucast (0xE0 OR drop_bit 12 c), ucast (0x80 OR (drop_bit 6 c AND 0x3F)),
            ucast (0x80 OR (c AND 0x3F))])"

definition utf8_encode :: "FriBidiChar list \<Rightarrow> 8 word list" where
  "utf8_encode cs = concat (map utf8_encode_char cs)"

fun utf8_decode :: "8 word list \<Rightarrow> FriBidiChar list" where
  "utf8_decode [] = []"
| "utf8_decode [b] = [ucast b]"
| "utf8_decode [b, b1] =
     (if b < 0x80 then [ucast b, ucast b1]
      else [push_bit 6 (ucast (b AND 0x1F)) OR ucast (b1 AND 0x3F)])"
| "utf8_decode (b # b1 # b2 # bs) =
     (if b < 0x80 then ucast b # utf8_decode (b1 # b2 # bs)
      else if b < 0xE0 then
        (push_bit 6 (ucast (b AND 0x1F)) OR ucast (b1 AND 0x3F)) # utf8_decode (b2 # bs)
      else
        (push_bit 12 (ucast (b AND 0x0F)) OR push_bit 6 (ucast (b1 AND 0x3F)) OR
         ucast (b2 AND 0x3F)) # utf8_decode bs)"

definition excerpt :: collab where
  "excerpt =
     \<lparr>hb_unicode_script = script_excerpt,
      fribidi_get_par_embedding_levels = levels_excerpt,
      visual_order = (\<lambda>runs. runs),
      hb_shape_full = shape_excerpt,
      hb_feature_from_string = feature_excerpt,
      fribidi_charset_to_unicode = utf8_decode,
      fribidi_unicode_to_charset = utf8_encode\<rparr>"


section \<open>The walk of the script resolver, state by state\<close>

text \<open>
  The state of \<^verbatim>\<open>_raqm_resolve_scripts\<close> before iteration \<open>k\<close> of its loop, that is
  after the iterations \<open>0\<close> to \<open>k - 1\<close>; \<open>None\<close> when one of them has left the arrays.
\<close>

primrec resolve_prefix :: "FriBidiChar list \<Rightarrow> resolve_state \<Rightarrow> nat \<Rightarrow> resolve_state option" where
  "resolve_prefix txt st0 0 = Some st0"
| "resolve_prefix txt st0 (Suc k) =
     (case resolve_prefix txt st0 k of
        None \<Rightarrow> None
      | Some st \<Rightarrow> resolve_step txt k st)"

text \<open>
  What holds of the state before iteration \<open>k\<close>: the arrays keep the length of the
  text, every position before \<open>k\<close> has been set, a script has been seen once the first
  iteration is over, the stack holds at most \<open>k - 1\<close> elements, and the position before
  \<open>k\<close> holds the last script value.
\<close>

definition resolve_inv :: "FriBidiChar list \<Rightarrow> nat \<Rightarrow> resolve_state \<Rightarrow> bool" where
  "resolve_inv txt k st =
     (length (rs_scripts st) = length txt \<and>
      last_set_index st = int k - 1 \<and>
      (last_script_index st = - 1) = (k = 0) \<and>
      stack_capacity (rs_stack st) = length txt \<and>
      length (stack_scripts (rs_stack st)) = length txt \<and>
      length (stack_pair_index (rs_stack st)) = length txt \<and>
      stack_size (rs_stack st) \<le> k - 1 \<and>
      (0 < k \<longrightarrow> rs_scripts st ! (k - 1) = last_script_value st))"

text \<open>A script that is neither of the two sentinels.\<close>

definition concrete_script :: "hb_script \<Rightarrow> bool" where
  "concrete_script s = (s \<noteq> HB_SCRIPT_COMMON \<and> s \<noteq> HB_SCRIPT_INHERITED)"

text \<open>
  A scalar that the resolver treats as a closing, or as an opening, paired bracket: its
  script is Common and the table gives it an odd, or an even, index.
\<close>

definition is_closer :: "(FriBidiChar \<Rightarrow> hb_script) \<Rightarrow> FriBidiChar \<Rightarrow> bool" where
  "is_closer usc c =
     (usc c = HB_SCRIPT_COMMON \<and> 0 \<le> get_pair_index c \<and> \<not> IS_OPEN (get_pair_index c))"

definition is_opener :: "(FriBidiChar \<Rightarrow> hb_script) \<Rightarrow> FriBidiChar \<Rightarrow> bool" where
  "is_opener usc c =
     (usc c = HB_SCRIPT_COMMON \<and> 0 \<le> get_pair_index c \<and> IS_OPEN (get_pair_index c))"

text \<open>
  Every element on the stack was pushed for an opening bracket at an earlier position,
  with the pair index of that bracket and the script that position has.
\<close>

definition stack_history ::
  "(FriBidiChar \<Rightarrow> hb_script) \<Rightarrow> FriBidiChar list \<Rightarrow> nat \<Rightarrow> resolve_state \<Rightarrow> bool" where
  "stack_history usc txt k st =
     (\<forall>m. 0 < m \<and> m \<le> stack_size (rs_stack st) \<longrightarrow>
        (\<exists>j. 0 < j \<and> j < k \<and> is_opener usc (txt ! j) \<and>
             get_pair_index (txt ! j) = stack_pair_index (rs_stack st) ! m \<and>
             rs_scripts st ! j = stack_scripts (rs_stack st) ! m))"

text \<open>The positions from \<open>k\<close> on still hold the script of their scalar.\<close>

definition untouched ::
  "(FriBidiChar \<Rightarrow> hb_script) \<Rightarrow> FriBidiChar list \<Rightarrow> nat \<Rightarrow> resolve_state \<Rightarrow> bool" where
  "untouched usc txt k st =
     (\<forall>j. k \<le> j \<and> j < length txt \<longrightarrow> rs_scripts st ! j = usc (txt ! j))"

text \<open>
  No sentinel among the last script value, the positions before \<open>k\<close> and the elements
  of the stack.
\<close>

definition concrete_so_far :: "nat \<Rightarrow> resolve_state \<Rightarrow> bool" where
  "concrete_so_far k st =
     ((0 < k \<longrightarrow> concrete_script (last_script_value st)) \<and>
      (\<forall>j<k. concrete_script (rs_scripts st ! j)) \<and>
      (\<forall>m. 0 < m \<and> m \<le> stack_size (rs_stack st) \<longrightarrow>
           concrete_script (stack_scripts (rs_stack st) ! m)))"


text \<open>
  A context as the calls of the documentation leave it before layout: created, given
  the text \<open>a b U+0628 U+0629 c\<close> and a face.
\<close>

definition sample_context :: raqm where
  "sample_context =
     the (raqm_set_freetype_face
       (raqm_set_text (Some raqm_create) [0x61, 0x62, 0x628, 0x629, 0x63]) 7 0 5)"




text \<open>
  The stand-in collaborators with a shaper that shapes as before and reports an error on
  every call.
\<close>

definition failing_shaper :: collab where
  "failing_shaper = with_shaper_status (\<lambda>font txt pos len script dir features. False) excerpt"

text \<open>
  A glyph with its cluster replaced by the length of the UTF-8 form of the scalars
  before that cluster.
\<close>

definition remap_glyph :: "collab \<Rightarrow> FriBidiChar list \<Rightarrow> raqm_glyph_t \<Rightarrow> raqm_glyph_t" where
  "remap_glyph E scalars g =
     g\<lparr>glyph_cluster :=
         word_of_nat (length (fribidi_unicode_to_charset E (take (unat (glyph_cluster g)) scalars)))\<rparr>"


section \<open>Lemmas on the script resolver\<close>

declare resolve_loop.simps [simp del] pop_until.simps [simp del] backfill.simps [simp del]
  get_pair_index_loop.simps [simp del]

lemma resolve_loop_prefix:
  "resolve_prefix txt st0 k = Some st \<Longrightarrow> k \<le> length txt \<Longrightarrow>
   resolve_loop txt k st = resolve_loop txt 0 st0"
proof (induction k arbitrary: st)
  case 0
  then show ?case by simp
next
  case (Suc k)
  then obtain st1 where p: "resolve_prefix txt st0 k = Some st1" and s: "resolve_step txt k st1 = Some st"
    by (auto split: option.splits)
  have "resolve_loop txt k st1 = resolve_loop txt 0 st0"
    using Suc.IH [OF p] Suc.prems by simp
  moreover have "resolve_loop txt k st1 = resolve_loop txt (Suc k) st"
    using Suc.prems s by (subst resolve_loop.simps) simp
  ultimately show ?case by simp
qed

lemma resolve_loop_end: "resolve_prefix txt st0 (length txt) = Some st \<Longrightarrow> resolve_loop txt 0 st0 = Some st"
proof -
  assume a: "resolve_prefix txt st0 (length txt) = Some st"
  have "resolve_loop txt (length txt) st = Some st"
    by (subst resolve_loop.simps) simp
  with resolve_loop_prefix [OF a] show ?thesis by simp
qed

lemma backfill_none: "i \<le> j \<Longrightarrow> backfill scripts j i = scripts"
  by (subst backfill.simps) simp

lemma pop_until_shrinks:
  assumes "stack_size s < length (stack_pair_index s)"
  shows "\<exists>n. n \<le> stack_size s \<and> pop_until pi s = Some (s\<lparr>stack_size := n\<rparr>) \<and>
           (n \<noteq> 0 \<longrightarrow> stack_pair_index s ! n = pi)"
  using assms
proof (induction pi s rule: pop_until.induct)
  case (1 pi s)
  show ?case
  proof (cases "stack_size s = 0")
    case True
    then show ?thesis
      by (subst pop_until.simps) (simp add: STACK_IS_NOT_EMPTY_def STACK_IS_EMPTY_def)
  next
    case False
    note ne = this
    show ?thesis
    proof (cases "stack_pair_index s ! stack_size s = pi")
      case True
      with ne "1.prems" have "pop_until pi s = Some (s\<lparr>stack_size := stack_size s\<rparr>)"
        by (subst pop_until.simps) (simp add: STACK_IS_NOT_EMPTY_def STACK_IS_EMPTY_def)
      with True ne show ?thesis by blast
    next
      case False
      let ?s' = "snd (raqm_stack_pop s)"
      have s': "?s' = s\<lparr>stack_size := stack_size s - 1\<rparr>"
        using ne by (simp add: raqm_stack_pop_def)
      have "\<exists>n. n \<le> stack_size ?s' \<and> pop_until pi ?s' = Some (?s'\<lparr>stack_size := n\<rparr>) \<and>
           (n \<noteq> 0 \<longrightarrow> stack_pair_index ?s' ! n = pi)"
        using "1.IH" ne False "1.prems" s'
        by (simp add: STACK_IS_NOT_EMPTY_def STACK_IS_EMPTY_def)
      then obtain n where n: "n \<le> stack_size s - 1"
        "pop_until pi ?s' = Some (s\<lparr>stack_size := n\<rparr>)" "n \<noteq> 0 \<longrightarrow> stack_pair_index s ! n = pi"
        by (auto simp: s')
      have "pop_until pi s = pop_until pi ?s'"
        using ne False "1.prems"
        by (subst pop_until.simps) (simp add: STACK_IS_NOT_EMPTY_def STACK_IS_EMPTY_def)
      with n show ?thesis by (intro exI [of _ n]) auto
    qed
  qed
qed

lemma common_not_inherited: "HB_SCRIPT_COMMON \<noteq> HB_SCRIPT_INHERITED"
  by (simp add: HB_SCRIPT_COMMON_def HB_SCRIPT_INHERITED_def)

lemma step_concrete:
  assumes "\<not> (rs_scripts st ! k = HB_SCRIPT_COMMON \<and> last_script_index st \<noteq> - 1)"
    and "\<not> (rs_scripts st ! k = HB_SCRIPT_INHERITED \<and> last_script_index st \<noteq> - 1)"
    and "last_set_index st = int k - 1"
  shows "resolve_step txt k st =
         Some (st\<lparr>last_script_value := rs_scripts st ! k, last_script_index := int k,
                  last_set_index := int k\<rparr>)"
  using assms by (auto simp: resolve_step_def Let_def backfill_none)

lemma step_inherited:
  assumes "rs_scripts st ! k = HB_SCRIPT_INHERITED" and "last_script_index st \<noteq> - 1"
  shows "resolve_step txt k st =
         Some (st\<lparr>rs_scripts := (rs_scripts st)[k := last_script_value st],
                  last_set_index := int k\<rparr>)"
  using assms common_not_inherited by (simp add: resolve_step_def)

lemma step_common_plain:
  assumes "rs_scripts st ! k = HB_SCRIPT_COMMON" and "last_script_index st \<noteq> - 1"
    and "get_pair_index (txt ! k) < 0"
  shows "resolve_step txt k st =
         Some (st\<lparr>rs_scripts := (rs_scripts st)[k := last_script_value st],
                  last_set_index := int k\<rparr>)"
  using assms by (simp add: resolve_step_def Let_def)

lemma step_open:
  assumes "rs_scripts st ! k = HB_SCRIPT_COMMON" and "last_script_index st \<noteq> - 1"
    and "0 \<le> get_pair_index (txt ! k)" and "IS_OPEN (get_pair_index (txt ! k))"
    and "k < length (rs_scripts st)"
  shows "resolve_step txt k st =
         (case raqm_stack_push (rs_stack st) (last_script_value st) (get_pair_index (txt ! k)) of
            None \<Rightarrow> None
          | Some (pushed, stack) \<Rightarrow>
              Some (st\<lparr>rs_scripts := (rs_scripts st)[k := last_script_value st],
                       last_set_index := int k, rs_stack := stack\<rparr>))"
  using assms by (simp add: resolve_step_def Let_def)

lemma step_close:
  assumes "rs_scripts st ! k = HB_SCRIPT_COMMON" and "last_script_index st \<noteq> - 1"
    and "0 \<le> get_pair_index (txt ! k)" and "\<not> IS_OPEN (get_pair_index (txt ! k))"
    and "pop_until (get_pair_index (txt ! k) AND NOT 1) (rs_stack st) = Some stack"
  shows "resolve_step txt k st =
         (if stack_size stack \<noteq> 0 then
            (case raqm_stack_top stack of
               None \<Rightarrow> None
             | Some top_script \<Rightarrow>
                 Some (st\<lparr>rs_stack := stack,
                          rs_scripts := (rs_scripts st)[k := top_script],
                          last_script_value := top_script,
                          last_set_index := int k\<rparr>))
          else
            Some (st\<lparr>rs_stack := stack,
                     rs_scripts := (rs_scripts st)[k := last_script_value st],
                     last_set_index := int k\<rparr>))"
  using assms by (simp add: resolve_step_def Let_def STACK_IS_NOT_EMPTY_def STACK_IS_EMPTY_def)

lemma push_in_bounds:
  assumes "push_slot s < stack_capacity s" and "stack_capacity s = length (stack_scripts s)"
    and "stack_capacity s = length (stack_pair_index s)"
  shows "raqm_stack_push s script pi =
         Some (True, s\<lparr>stack_size := push_slot s,
                       stack_scripts := (stack_scripts s)[push_slot s := script],
                       stack_pair_index := (stack_pair_index s)[push_slot s := pi]\<rparr>)"
  using assms by (simp add: raqm_stack_push_def push_slot_def)

lemma step_cases [consumes 2, case_names concrete fill opener unmatched matched]:
  assumes inv: "resolve_inv txt k st" and k: "k < length txt"
  obtains
    (concrete) "\<not> (rs_scripts st ! k = HB_SCRIPT_COMMON \<and> 0 < k)"
      "\<not> (rs_scripts st ! k = HB_SCRIPT_INHERITED \<and> 0 < k)"
      "resolve_step txt k st =
         Some (st\<lparr>last_script_value := rs_scripts st ! k, last_script_index := int k,
                  last_set_index := int k\<rparr>)"
  | (fill) "0 < k"
      "rs_scripts st ! k = HB_SCRIPT_INHERITED \<or>
       (rs_scripts st ! k = HB_SCRIPT_COMMON \<and> get_pair_index (txt ! k) < 0)"
      "resolve_step txt k st =
         Some (st\<lparr>rs_scripts := (rs_scripts st)[k := last_script_value st],
                  last_set_index := int k\<rparr>)"
  | (opener) "0 < k" "rs_scripts st ! k = HB_SCRIPT_COMMON"
      "0 \<le> get_pair_index (txt ! k)" "IS_OPEN (get_pair_index (txt ! k))"
      "push_slot (rs_stack st) < length txt"
      "resolve_step txt k st =
         Some (st\<lparr>rs_scripts := (rs_scripts st)[k := last_script_value st],
                  last_set_index := int k,
                  rs_stack := (rs_stack st)
                    \<lparr>stack_size := push_slot (rs_stack st),
                     stack_scripts := (stack_scripts (rs_stack st))
                        [push_slot (rs_stack st) := last_script_value st],
                     stack_pair_index := (stack_pair_index (rs_stack st))
                        [push_slot (rs_stack st) := get_pair_index (txt ! k)]\<rparr>\<rparr>)"
  | (unmatched) "0 < k" "rs_scripts st ! k = HB_SCRIPT_COMMON"
      "0 \<le> get_pair_index (txt ! k)" "\<not> IS_OPEN (get_pair_index (txt ! k))"
      "resolve_step txt k st =
         Some (st\<lparr>rs_stack := (rs_stack st)\<lparr>stack_size := 0\<rparr>,
                  rs_scripts := (rs_scripts st)[k := last_script_value st],
                  last_set_index := int k\<rparr>)"
  | (matched) n where "0 < k" "rs_scripts st ! k = HB_SCRIPT_COMMON"
      "0 \<le> get_pair_index (txt ! k)" "\<not> IS_OPEN (get_pair_index (txt ! k))"
      "0 < n" "n \<le> stack_size (rs_stack st)"
      "stack_pair_index (rs_stack st) ! n = get_pair_index (txt ! k) AND NOT 1"
      "resolve_step txt k st =
         Some (st\<lparr>rs_stack := (rs_stack st)\<lparr>stack_size := n\<rparr>,
                  rs_scripts := (rs_scripts st)[k := stack_scripts (rs_stack st) ! n],
                  last_script_value := stack_scripts (rs_stack st) ! n,
                  last_set_index := int k\<rparr>)"
proof -
  let ?scr = "rs_scripts st" and ?s = "rs_stack st"
  from inv k have len: "k < length ?scr" by (simp add: resolve_inv_def)
  from inv have lsi: "(last_script_index st \<noteq> - 1) = (0 < k)" by (auto simp: resolve_inv_def)
  consider (c1) "\<not> (?scr ! k = HB_SCRIPT_COMMON \<and> 0 < k)"
      "\<not> (?scr ! k = HB_SCRIPT_INHERITED \<and> 0 < k)"
    | (c2) "?scr ! k = HB_SCRIPT_INHERITED" "0 < k"
    | (c3) "?scr ! k = HB_SCRIPT_COMMON" "0 < k" "get_pair_index (txt ! k) < 0"
    | (c4) "?scr ! k = HB_SCRIPT_COMMON" "0 < k"
        "0 \<le> get_pair_index (txt ! k)" "IS_OPEN (get_pair_index (txt ! k))"
    | (c5) "?scr ! k = HB_SCRIPT_COMMON" "0 < k"
        "0 \<le> get_pair_index (txt ! k)" "\<not> IS_OPEN (get_pair_index (txt ! k))"
    by fastforce
  then show ?thesis
  proof cases
    case c1
    have "last_set_index st = int k - 1" using inv by (simp add: resolve_inv_def)
    with c1 lsi show ?thesis by (intro concrete step_concrete) simp_all
  next
    case c2
    with lsi show ?thesis by (intro fill step_inherited) simp_all
  next
    case c3
    with lsi show ?thesis by (intro fill step_common_plain) simp_all
  next
    case c4
    with inv k have slot: "push_slot ?s < stack_capacity ?s"
      by (auto simp: resolve_inv_def push_slot_def)
    from push_in_bounds [OF this] inv
    have "raqm_stack_push ?s (last_script_value st) (get_pair_index (txt ! k)) =
         Some (True, ?s\<lparr>stack_size := push_slot ?s,
                       stack_scripts := (stack_scripts ?s)[push_slot ?s := last_script_value st],
                       stack_pair_index := (stack_pair_index ?s)[push_slot ?s := get_pair_index (txt ! k)]\<rparr>)"
      by (simp add: resolve_inv_def)
    with step_open [OF c4(1) _ c4(3,4) len] lsi c4(2)
    have "resolve_step txt k st =
         Some (st\<lparr>rs_scripts := (rs_scripts st)[k := last_script_value st],
                  last_set_index := int k,
                  rs_stack := (rs_stack st)
                    \<lparr>stack_size := push_slot (rs_stack st),
                     stack_scripts := (stack_scripts (rs_stack st))
                        [push_slot (rs_stack st) := last_script_value st],
                     stack_pair_index := (stack_pair_index (rs_stack st))
                        [push_slot (rs_stack st) := get_pair_index (txt ! k)]\<rparr>\<rparr>)"
      by simp
    moreover from slot inv have "push_slot ?s < length txt" by (simp add: resolve_inv_def)
    ultimately show ?thesis using c4 by (intro opener)
  next
    case c5
    with inv k have sz: "stack_size ?s < length (stack_pair_index ?s)"
      by (auto simp: resolve_inv_def)
    from pop_until_shrinks [OF sz, of "get_pair_index (txt ! k) AND NOT 1"]
    obtain n where n: "n \<le> stack_size ?s"
      "pop_until (get_pair_index (txt ! k) AND NOT 1) ?s = Some (?s\<lparr>stack_size := n\<rparr>)"
      "n \<noteq> 0 \<longrightarrow> stack_pair_index ?s ! n = get_pair_index (txt ! k) AND NOT 1"
      by blast
    have top: "n \<noteq> 0 \<Longrightarrow> raqm_stack_top (?s\<lparr>stack_size := n\<rparr>) = Some (stack_scripts ?s ! n)"
      using n(1) sz inv by (auto simp: raqm_stack_top_def resolve_inv_def)
    show ?thesis
    proof (cases "n = 0")
      case True
      with step_close [OF c5(1) _ c5(3,4) n(2)] lsi c5(2) show ?thesis
        using c5 by (intro unmatched) simp_all
    next
      case False
      with step_close [OF c5(1) _ c5(3,4) n(2)] lsi c5(2) top n show ?thesis
        using c5 by (intro matched [of n]) simp_all
    qed
  qed
qed

lemma step_inv:
  assumes inv: "resolve_inv txt k st" and k: "k < length txt"
  shows "\<exists>st'. resolve_step txt k st = Some st' \<and> resolve_inv txt (Suc k) st' \<and>
           (\<forall>j. j \<noteq> k \<longrightarrow> rs_scripts st' ! j = rs_scripts st ! j)"
  using inv k
proof (cases rule: step_cases)
  case concrete
  with inv k show ?thesis by (auto simp: resolve_inv_def)
next
  case fill
  with inv k show ?thesis by (auto simp: resolve_inv_def)
next
  case opener
  with inv k show ?thesis by (auto simp: resolve_inv_def push_slot_def)
next
  case unmatched
  with inv k show ?thesis by (auto simp: resolve_inv_def)
next
  case (matched n)
  with inv k show ?thesis by (auto simp: resolve_inv_def)
qed

lemma init_inv: "resolve_inv txt 0 (resolve_init usc txt)"
  by (simp add: resolve_inv_def resolve_init_def raqm_stack_new_def push_slot_def)

lemma prefix_inv:
  "k \<le> length txt \<Longrightarrow>
   \<exists>st. resolve_prefix txt (resolve_init usc txt) k = Some st \<and> resolve_inv txt k st"
proof (induction k)
  case 0
  then show ?case by (simp add: init_inv)
next
  case (Suc k)
  then obtain st where "resolve_prefix txt (resolve_init usc txt) k = Some st" "resolve_inv txt k st"
    by auto
  with step_inv [of "txt" k st] Suc.prems show ?case by auto
qed

lemma prefix_stable:
  assumes "resolve_prefix txt (resolve_init usc txt) k = Some st"
    and "resolve_prefix txt (resolve_init usc txt) (k + d) = Some st'"
    and "k + d \<le> length txt" and "j < k"
  shows "rs_scripts st' ! j = rs_scripts st ! j"
  using assms(2,3)
proof (induction d arbitrary: st')
  case 0
  with assms(1) show ?case by simp
next
  case (Suc d)
  from prefix_inv [of "k + d" "txt" usc] Suc.prems obtain st1 where
    st1: "resolve_prefix txt (resolve_init usc txt) (k + d) = Some st1" "resolve_inv txt (k + d) st1"
    by auto
  from step_inv [OF st1(2)] Suc.prems st1(1) have "\<forall>j. j \<noteq> k + d \<longrightarrow> rs_scripts st' ! j = rs_scripts st1 ! j"
    by auto
  with Suc.IH [OF st1(1)] Suc.prems assms(4) show ?case by simp
qed

lemma resolved_scripts_prefix:
  "\<exists>st. resolve_prefix txt (resolve_init usc txt) (length txt) = Some st \<and>
        resolved_scripts usc txt = Some (rs_scripts st) \<and> resolve_inv txt (length txt) st"
proof -
  from prefix_inv [of "length txt" "txt" usc] obtain st where
    st: "resolve_prefix txt (resolve_init usc txt) (length txt) = Some st" "resolve_inv txt (length txt) st"
    by auto
  from resolve_loop_end [OF st(1)] st show ?thesis by (simp add: resolved_scripts_def)
qed

lemma final_is_step_value:
  assumes "resolved_scripts usc txt = Some final"
    and "resolve_prefix txt (resolve_init usc txt) (Suc j) = Some st" and "j < length txt"
  shows "final ! j = rs_scripts st ! j"
proof -
  from resolved_scripts_prefix [of "txt" usc] assms(1) obtain stN where
    stN: "resolve_prefix txt (resolve_init usc txt) (length txt) = Some stN" "final = rs_scripts stN"
    by auto
  from assms(3) obtain d where d: "length txt = Suc j + d"
    using less_iff_Suc_add by auto
  have "rs_scripts stN ! j = rs_scripts st ! j"
    by (rule prefix_stable [OF assms(2), of d]) (use stN(1) d in simp_all)
  with stN show ?thesis by simp
qed

lemma history_kept:
  assumes h: "stack_history usc txt k st"
    and sz: "stack_size (rs_stack st') \<le> stack_size (rs_stack st)"
    and cells: "\<And>m. 0 < m \<Longrightarrow> m \<le> stack_size (rs_stack st') \<Longrightarrow>
        stack_pair_index (rs_stack st') ! m = stack_pair_index (rs_stack st) ! m \<and>
        stack_scripts (rs_stack st') ! m = stack_scripts (rs_stack st) ! m"
    and scr: "\<And>j. j < k \<Longrightarrow> rs_scripts st' ! j = rs_scripts st ! j"
  shows "stack_history usc txt (Suc k) st'"
  unfolding stack_history_def
proof (intro allI impI)
  fix m assume m: "0 < m \<and> m \<le> stack_size (rs_stack st')"
  with sz have "0 < m \<and> m \<le> stack_size (rs_stack st)" by simp
  with h obtain j where j: "0 < j" "j < k" "is_opener usc (txt ! j)"
    "get_pair_index (txt ! j) = stack_pair_index (rs_stack st) ! m"
    "rs_scripts st ! j = stack_scripts (rs_stack st) ! m"
    unfolding stack_history_def by blast
  from j cells [of m] m scr [of j]
  show "\<exists>j. 0 < j \<and> j < Suc k \<and> is_opener usc (txt ! j) \<and>
           get_pair_index (txt ! j) = stack_pair_index (rs_stack st') ! m \<and>
           rs_scripts st' ! j = stack_scripts (rs_stack st') ! m"
    by (intro exI [of _ j]) simp
qed

lemma step_history:
  assumes inv: "resolve_inv txt k st" and k: "k < length txt"
    and un: "untouched usc txt k st" and h: "stack_history usc txt k st"
    and step: "resolve_step txt k st = Some st'"
  shows "stack_history usc txt (Suc k) st'"
  using inv k
proof (cases rule: step_cases)
  case concrete
  with step have st': "st' = st\<lparr>last_script_value := rs_scripts st ! k, last_script_index := int k,
                  last_set_index := int k\<rparr>" by simp
  show ?thesis by (rule history_kept [OF h]) (simp_all add: st')
next
  case fill
  with step have st': "st' = st\<lparr>rs_scripts := (rs_scripts st)[k := last_script_value st],
                  last_set_index := int k\<rparr>" by simp
  show ?thesis by (rule history_kept [OF h]) (simp_all add: st')
next
  case opener
  let ?s = "rs_stack st"
  from opener step have st': "st' = st\<lparr>rs_scripts := (rs_scripts st)[k := last_script_value st],
                  last_set_index := int k,
                  rs_stack := ?s
                    \<lparr>stack_size := push_slot ?s,
                     stack_scripts := (stack_scripts ?s)[push_slot ?s := last_script_value st],
                     stack_pair_index := (stack_pair_index ?s)
                        [push_slot ?s := get_pair_index (txt ! k)]\<rparr>\<rparr>" by simp
  from inv k have len: "k < length (rs_scripts st)" "length (stack_scripts ?s) = length txt"
    "length (stack_pair_index ?s) = length txt"
    by (simp_all add: resolve_inv_def)
  from un k opener have op: "is_opener usc (txt ! k)"
    by (simp add: untouched_def is_opener_def)
  show ?thesis unfolding stack_history_def
  proof (intro allI impI)
    fix m assume m: "0 < m \<and> m \<le> stack_size (rs_stack st')"
    show "\<exists>j. 0 < j \<and> j < Suc k \<and> is_opener usc (txt ! j) \<and>
             get_pair_index (txt ! j) = stack_pair_index (rs_stack st') ! m \<and>
             rs_scripts st' ! j = stack_scripts (rs_stack st') ! m"
    proof (cases "m = push_slot ?s")
      case True
      with st' len op opener show ?thesis by (intro exI [of _ k]) simp
    next
      case False
      with m st' have "0 < m \<and> m \<le> stack_size ?s" by (simp add: push_slot_def)
      with h obtain j where j: "0 < j" "j < k" "is_opener usc (txt ! j)"
        "get_pair_index (txt ! j) = stack_pair_index ?s ! m"
        "rs_scripts st ! j = stack_scripts ?s ! m"
        unfolding stack_history_def by blast
      with st' False show ?thesis by (intro exI [of _ j]) simp
    qed
  qed
next
  case unmatched
  with step have st': "st' = st\<lparr>rs_stack := (rs_stack st)\<lparr>stack_size := 0\<rparr>,
                  rs_scripts := (rs_scripts st)[k := last_script_value st],
                  last_set_index := int k\<rparr>" by simp
  show ?thesis by (rule history_kept [OF h]) (simp_all add: st')
next
  case (matched n)
  with step have st': "st' = st\<lparr>rs_stack := (rs_stack st)\<lparr>stack_size := n\<rparr>,
                  rs_scripts := (rs_scripts st)[k := stack_scripts (rs_stack st) ! n],
                  last_script_value := stack_scripts (rs_stack st) ! n,
                  last_set_index := int k\<rparr>" by simp
  show ?thesis by (rule history_kept [OF h]) (simp_all add: st' matched)
qed

lemma step_untouched:
  assumes "resolve_inv txt k st" and "k < length txt"
    and "untouched usc txt k st" and "resolve_step txt k st = Some st'"
  shows "untouched usc txt (Suc k) st'"
  using step_inv [OF assms(1,2)] assms(3,4) by (auto simp: untouched_def)

lemma step_value:
  assumes inv: "resolve_inv txt k st" and k: "k < length txt" and k0: "0 < k"
    and un: "untouched usc txt k st" and h: "stack_history usc txt k st"
    and nc: "\<not> concrete_script (usc (txt ! k))"
    and step: "resolve_step txt k st = Some st'"
  shows "rs_scripts st' ! k = rs_scripts st ! (k - 1) \<or>
         (is_closer usc (txt ! k) \<and>
          (\<exists>j. 0 < j \<and> j < k \<and> is_opener usc (txt ! j) \<and>
               get_pair_index (txt ! j) = get_pair_index (txt ! k) AND NOT 1 \<and>
               rs_scripts st' ! k = rs_scripts st' ! j))"
proof -
  from inv k k0 have len: "k < length (rs_scripts st)"
    and prev: "rs_scripts st ! (k - 1) = last_script_value st"
    by (simp_all add: resolve_inv_def)
  from un k have init: "rs_scripts st ! k = usc (txt ! k)" by (simp add: untouched_def)
  from inv k show ?thesis
  proof (cases rule: step_cases)
    case concrete
    with nc init k0 show ?thesis by (simp add: concrete_script_def)
  next
    case fill
    with step have "st' = st\<lparr>rs_scripts := (rs_scripts st)[k := last_script_value st],
                  last_set_index := int k\<rparr>" by simp
    with len prev show ?thesis by simp
  next
    case opener
    with step have "rs_scripts st' = (rs_scripts st)[k := last_script_value st]" by auto
    with len prev show ?thesis by simp
  next
    case unmatched
    with step have "rs_scripts st' = (rs_scripts st)[k := last_script_value st]" by auto
    with len prev show ?thesis by simp
  next
    case (matched n)
    from h matched(5,6) obtain j where j: "0 < j" "j < k" "is_opener usc (txt ! j)"
      "get_pair_index (txt ! j) = stack_pair_index (rs_stack st) ! n"
      "rs_scripts st ! j = stack_scripts (rs_stack st) ! n"
      unfolding stack_history_def by blast
    from matched init have cl: "is_closer usc (txt ! k)" by (simp add: is_closer_def)
    from matched step have "rs_scripts st' = (rs_scripts st)[k := stack_scripts (rs_stack st) ! n]"
      by auto
    with len j have "rs_scripts st' ! k = rs_scripts st' ! j" by simp
    with cl j matched(7) show ?thesis by auto
  qed
qed

lemma step_concrete_kept:
  assumes inv: "resolve_inv txt k st" and k: "k < length txt"
    and un: "untouched usc txt k st" and c: "concrete_so_far k st"
    and first: "concrete_script (usc (txt ! 0))"
    and step: "resolve_step txt k st = Some st'"
  shows "concrete_so_far (Suc k) st'"
proof -
  from inv k have len: "k < length (rs_scripts st)" "length (stack_scripts (rs_stack st)) = length txt"
    by (simp_all add: resolve_inv_def)
  from un k have init: "rs_scripts st ! k = usc (txt ! k)" by (simp add: untouched_def)
  from inv k show ?thesis
  proof (cases rule: step_cases)
    case concrete
    with step have st': "st' = st\<lparr>last_script_value := rs_scripts st ! k, last_script_index := int k,
                  last_set_index := int k\<rparr>" by simp
    from concrete(1,2) init first have "concrete_script (rs_scripts st ! k)"
      by (cases "k = 0") (auto simp: concrete_script_def)
    with c show ?thesis by (auto simp: st' concrete_so_far_def less_Suc_eq)
  next
    case fill
    with step have st': "st' = st\<lparr>rs_scripts := (rs_scripts st)[k := last_script_value st],
                  last_set_index := int k\<rparr>" by simp
    from c fill(1) len show ?thesis
      by (auto simp: st' concrete_so_far_def less_Suc_eq nth_list_update)
  next
    case opener
    with step have st': "st' = st\<lparr>rs_scripts := (rs_scripts st)[k := last_script_value st],
                  last_set_index := int k,
                  rs_stack := (rs_stack st)
                    \<lparr>stack_size := push_slot (rs_stack st),
                     stack_scripts := (stack_scripts (rs_stack st))
                        [push_slot (rs_stack st) := last_script_value st],
                     stack_pair_index := (stack_pair_index (rs_stack st))
                        [push_slot (rs_stack st) := get_pair_index (txt ! k)]\<rparr>\<rparr>" by simp
    from c opener(1,5) len show ?thesis
      by (auto simp: st' concrete_so_far_def less_Suc_eq nth_list_update push_slot_def)
  next
    case unmatched
    with step have st': "st' = st\<lparr>rs_stack := (rs_stack st)\<lparr>stack_size := 0\<rparr>,
                  rs_scripts := (rs_scripts st)[k := last_script_value st],
                  last_set_index := int k\<rparr>" by simp
    from c unmatched(1) len show ?thesis
      by (auto simp: st' concrete_so_far_def less_Suc_eq nth_list_update)
  next
    case (matched n)
    with step have st': "st' = st\<lparr>rs_stack := (rs_stack st)\<lparr>stack_size := n\<rparr>,
                  rs_scripts := (rs_scripts st)[k := stack_scripts (rs_stack st) ! n],
                  last_script_value := stack_scripts (rs_stack st) ! n,
                  last_set_index := int k\<rparr>" by simp
    from c matched(5,6) len show ?thesis
      by (auto simp: st' concrete_so_far_def less_Suc_eq nth_list_update)
  qed
qed

lemma prefix_invariants:
  "k \<le> length txt \<Longrightarrow>
   \<exists>st. resolve_prefix txt (resolve_init usc txt) k = Some st \<and> resolve_inv txt k st \<and>
        untouched usc txt k st \<and> stack_history usc txt k st \<and>
        (concrete_script (usc (txt ! 0)) \<longrightarrow> concrete_so_far k st)"
proof (induction k)
  case 0
  have "untouched usc txt 0 (resolve_init usc txt)"
    by (simp add: untouched_def resolve_init_def)
  moreover have "stack_history usc txt 0 (resolve_init usc txt)"
    by (auto simp: stack_history_def resolve_init_def raqm_stack_new_def)
  moreover have "concrete_so_far 0 (resolve_init usc txt)"
    by (simp add: concrete_so_far_def resolve_init_def raqm_stack_new_def)
  ultimately show ?case by (simp add: init_inv)
next
  case (Suc k)
  then obtain st where st: "resolve_prefix txt (resolve_init usc txt) k = Some st"
    "resolve_inv txt k st" "untouched usc txt k st" "stack_history usc txt k st"
    "concrete_script (usc (txt ! 0)) \<longrightarrow> concrete_so_far k st"
    by auto
  from Suc.prems have k: "k < length txt" by simp
  from step_inv [OF st(2) k] obtain st' where st': "resolve_step txt k st = Some st'"
    "resolve_inv txt (Suc k) st'"
    by auto
  note step_untouched [OF st(2) k st(3) st'(1)] step_history [OF st(2) k st(3,4) st'(1)]
  moreover have "concrete_script (usc (txt ! 0)) \<longrightarrow> concrete_so_far (Suc k) st'"
    using step_concrete_kept [OF st(2) k st(3) _ _ st'(1)] st(5) by blast
  ultimately show ?case using st(1) st' by simp
qed

lemma pair_table_all:
  "list_all (\<lambda>p. 0 \<le> get_pair_index (fst p) \<and> IS_OPEN (get_pair_index (fst p)) \<and>
      0 \<le> get_pair_index (snd p) \<and> \<not> IS_OPEN (get_pair_index (snd p)) \<and>
      get_pair_index (snd p) AND NOT 1 = get_pair_index (fst p)) (bracket_pairs paired_chars)"
  by code_simp

lemma pair_table:
  assumes "(opn, cls) \<in> set (bracket_pairs paired_chars)"
  shows "0 \<le> get_pair_index opn" "IS_OPEN (get_pair_index opn)"
    "0 \<le> get_pair_index cls" "\<not> IS_OPEN (get_pair_index cls)"
    "get_pair_index cls AND NOT 1 = get_pair_index opn"
  using pair_table_all assms unfolding list_all_iff by fastforce+

lemma pop_until_top_match:
  assumes "stack_size s \<noteq> 0" and "stack_size s < length (stack_pair_index s)"
    and "stack_pair_index s ! stack_size s = pi"
  shows "pop_until pi s = Some s"
  using assms by (subst pop_until.simps) (simp add: STACK_IS_NOT_EMPTY_def STACK_IS_EMPTY_def)

text \<open>Over a stretch of concrete scalars the walk keeps the stack and sets the last script.\<close>

lemma concrete_stretch:
  assumes st: "resolve_prefix txt (resolve_init usc txt) k = Some st"
    and d: "k + d \<le> length txt"
    and conc: "\<And>j. k \<le> j \<Longrightarrow> j < k + d \<Longrightarrow> concrete_script (usc (txt ! j))"
  shows "\<exists>st'. resolve_prefix txt (resolve_init usc txt) (k + d) = Some st' \<and>
           rs_stack st' = rs_stack st \<and>
           (0 < d \<longrightarrow> last_script_value st' = usc (txt ! (k + d - 1)))"
  using d conc
proof (induction d)
  case 0
  with st show ?case by simp
next
  case (Suc d)
  then obtain st1 where st1: "resolve_prefix txt (resolve_init usc txt) (k + d) = Some st1"
    "rs_stack st1 = rs_stack st"
    by auto
  from prefix_invariants [of "k + d" "txt" usc] Suc.prems st1(1) have
    inv: "resolve_inv txt (k + d) st1" and un: "untouched usc txt (k + d) st1"
    by auto
  from Suc.prems have kd: "k + d < length txt" by simp
  from un kd have init: "rs_scripts st1 ! (k + d) = usc (txt ! (k + d))"
    by (simp add: untouched_def)
  from Suc.prems(2) [of "k + d"] init have c: "concrete_script (rs_scripts st1 ! (k + d))"
    by simp
  from inv kd have "resolve_step txt (k + d) st1 =
         Some (st1\<lparr>last_script_value := rs_scripts st1 ! (k + d), last_script_index := int (k + d),
                  last_set_index := int (k + d)\<rparr>)"
  proof (cases rule: step_cases)
    case concrete
    then show ?thesis by simp
  qed (use c in \<open>auto simp: concrete_script_def\<close>)
  with st1 init show ?case by simp
qed


section \<open>Lemmas on itemization and layout\<close>

declare split_forward.simps [simp del] split_backward.simps [simp del] remap_clusters.simps [simp del]

lemma run_positions_extend_end:
  "0 \<le> run_len run \<Longrightarrow>
   run_positions (run\<lparr>run_len := run_len run + 1\<rparr>) = run_positions run @ [run_pos run + run_len run]"
  by (simp add: run_positions_def upto_rec2)

lemma run_positions_extend_front:
  "0 \<le> run_len run \<Longrightarrow> run_len run = 0 \<or> run_pos run = p + 1 \<Longrightarrow>
   run_positions (run\<lparr>run_len := run_len run + 1, run_pos := p\<rparr>) = p # run_positions run"
  by (auto simp: run_positions_def upto_rec1)

lemma run_positions_single:
  "run_positions (calloc_run\<lparr>run_pos := p, run_len := 1, run_direction := d, run_script := s\<rparr>) = [p]"
  by (simp add: run_positions_def)

lemma split_forward_positions:
  "split_forward rq brun j run acc = Some rs \<Longrightarrow> 0 \<le> run_len run \<Longrightarrow>
   run_pos run + run_len run = bidi_pos brun + j \<Longrightarrow>
   concat (map run_positions rs) =
     concat (map run_positions acc) @ run_positions run @
     [bidi_pos brun + j..bidi_pos brun + bidi_len brun - 1]"
proof (induction rq brun j run acc rule: split_forward.induct)
  case (1 rq brun j run acc)
  show ?case
  proof (cases "j < bidi_len brun")
    case False
    with "1.prems" show ?thesis by (subst (asm) split_forward.simps) auto
  next
    case True
    then have up: "[bidi_pos brun + j..bidi_pos brun + bidi_len brun - 1] =
        (bidi_pos brun + j) # [bidi_pos brun + (j + 1)..bidi_pos brun + bidi_len brun - 1]"
      by (simp add: upto_rec1 add.assoc)
    from True "1.prems"(1) obtain script where s: "script_at rq (bidi_pos brun + j) = Some script"
      by (subst (asm) split_forward.simps) (auto split: option.splits)
    show ?thesis
    proof (cases "script \<noteq> run_script run")
      case True
      let ?new = "calloc_run\<lparr>run_pos := bidi_pos brun + j, run_len := 1,
                    run_direction := raqm_hb_dir rq (bidi_level brun), run_script := script\<rparr>"
      from \<open>j < bidi_len brun\<close> s True "1.prems"(1)
      have "split_forward rq brun (j + 1) ?new (acc @ [run]) = Some rs"
        by (subst (asm) split_forward.simps) simp
      from "1.IH"(1) [OF \<open>j < bidi_len brun\<close> s True this]
      show ?thesis by (simp add: up run_positions_single add.assoc)
    next
      case False
      from \<open>j < bidi_len brun\<close> s False "1.prems"(1)
      have "split_forward rq brun (j + 1) (run\<lparr>run_len := run_len run + 1\<rparr>) acc = Some rs"
        by (subst (asm) split_forward.simps) simp
      from "1.IH"(2) [OF \<open>j < bidi_len brun\<close> s False this] "1.prems"(2,3)
      show ?thesis by (simp add: up run_positions_extend_end add.assoc)
    qed
  qed
qed

lemma split_backward_positions:
  "split_backward rq brun j run acc = Some rs \<Longrightarrow> 0 \<le> run_len run \<Longrightarrow>
   run_len run = 0 \<or> run_pos run = bidi_pos brun + j + 1 \<Longrightarrow>
   mset (concat (map run_positions rs)) =
     mset (concat (map run_positions acc)) + mset (run_positions run) +
     mset [bidi_pos brun..bidi_pos brun + j]"
proof (induction rq brun j run acc rule: split_backward.induct)
  case (1 rq brun j run acc)
  show ?case
  proof (cases "0 \<le> j")
    case False
    with "1.prems" show ?thesis by (subst (asm) split_backward.simps) auto
  next
    case True
    then have up: "[bidi_pos brun..bidi_pos brun + j] =
        [bidi_pos brun..bidi_pos brun + (j - 1)] @ [bidi_pos brun + j]"
    proof -
      have e: "bidi_pos brun + j - 1 = bidi_pos brun + (j - 1)" by simp
      from True have "bidi_pos brun \<le> bidi_pos brun + j" by simp
      from upto_rec2 [OF this] show ?thesis by (simp only: e)
    qed
    from True "1.prems"(1) obtain script where s: "script_at rq (bidi_pos brun + j) = Some script"
      by (subst (asm) split_backward.simps) (auto split: option.splits)
    show ?thesis
    proof (cases "script \<noteq> run_script run")
      case True
      let ?new = "calloc_run\<lparr>run_pos := bidi_pos brun + j, run_len := 1,
                    run_direction := raqm_hb_dir rq (bidi_level brun), run_script := script\<rparr>"
      from \<open>0 \<le> j\<close> s True "1.prems"(1)
      have "split_backward rq brun (j - 1) ?new (acc @ [run]) = Some rs"
        by (subst (asm) split_backward.simps) simp
      from "1.IH"(1) [OF \<open>0 \<le> j\<close> s True this]
      show ?thesis by (simp add: up run_positions_single)
    next
      case False
      let ?ext = "run\<lparr>run_len := run_len run + 1, run_pos := bidi_pos brun + j\<rparr>"
      from \<open>0 \<le> j\<close> s False "1.prems"(1)
      have "split_backward rq brun (j - 1) ?ext acc = Some rs"
        by (subst (asm) split_backward.simps) simp
      from "1.IH"(2) [OF \<open>0 \<le> j\<close> s False this] "1.prems"(2,3)
      show ?thesis by (simp add: up run_positions_extend_front)
    qed
  qed
qed


lemma split_forward_lens:
  "split_forward rq brun j run acc = Some rs \<Longrightarrow> 0 \<le> run_len run \<Longrightarrow>
   \<forall>r \<in> set acc. 0 \<le> run_len r \<Longrightarrow> \<forall>r \<in> set rs. 0 \<le> run_len r"
proof (induction rq brun j run acc rule: split_forward.induct)
  case (1 rq brun j run acc)
  from "1.prems"(1) show ?case
    by (subst (asm) split_forward.simps)
       (use "1.IH" "1.prems"(2,3) in \<open>auto simp: calloc_run_def split: if_splits option.splits\<close>)
qed

lemma split_backward_lens:
  "split_backward rq brun j run acc = Some rs \<Longrightarrow> 0 \<le> run_len run \<Longrightarrow>
   \<forall>r \<in> set acc. 0 \<le> run_len r \<Longrightarrow> \<forall>r \<in> set rs. 0 \<le> run_len r"
proof (induction rq brun j run acc rule: split_backward.induct)
  case (1 rq brun j run acc)
  from "1.prems"(1) show ?case
    by (subst (asm) split_backward.simps)
       (use "1.IH" "1.prems"(2,3) in \<open>auto simp: calloc_run_def split: if_splits option.splits\<close>)
qed

lemma itemize_run_positions:
  assumes "itemize_run rq brun = Some rs"
  shows "mset (concat (map run_positions rs)) = mset (bidi_run_positions brun)"
    and "\<forall>r \<in> set rs. 0 \<le> run_len r"
proof -
  let ?dir = "raqm_hb_dir rq (bidi_level brun)"
  show "mset (concat (map run_positions rs)) = mset (bidi_run_positions brun)"
  proof (cases "HB_DIRECTION_IS_BACKWARD ?dir")
    case True
    with assms obtain script where
      "split_backward rq brun (bidi_len brun - 1)
         (calloc_run\<lparr>run_direction := ?dir, run_pos := bidi_pos brun + bidi_len brun - 1,
            run_script := script\<rparr>) [] = Some rs"
      by (auto simp: itemize_run_def Let_def split: option.splits)
    from split_backward_positions [OF this] show ?thesis
      by (simp add: calloc_run_def run_positions_def bidi_run_positions_def add_diff_eq)
  next
    case False
    with assms obtain script where
      "split_forward rq brun 0
         (calloc_run\<lparr>run_direction := ?dir, run_pos := bidi_pos brun, run_script := script\<rparr>) []
       = Some rs"
      by (auto simp: itemize_run_def Let_def split: option.splits)
    from split_forward_positions [OF this] show ?thesis
      by (simp add: calloc_run_def run_positions_def bidi_run_positions_def)
  qed
  show "\<forall>r \<in> set rs. 0 \<le> run_len r"
  proof (cases "HB_DIRECTION_IS_BACKWARD ?dir")
    case True
    with assms obtain script where
      "split_backward rq brun (bidi_len brun - 1)
         (calloc_run\<lparr>run_direction := ?dir, run_pos := bidi_pos brun + bidi_len brun - 1,
            run_script := script\<rparr>) [] = Some rs"
      by (auto simp: itemize_run_def Let_def split: option.splits)
    from split_backward_lens [OF this] show ?thesis by (simp add: calloc_run_def)
  next
    case False
    with assms obtain script where
      "split_forward rq brun 0
         (calloc_run\<lparr>run_direction := ?dir, run_pos := bidi_pos brun, run_script := script\<rparr>) []
       = Some rs"
      by (auto simp: itemize_run_def Let_def split: option.splits)
    from split_forward_lens [OF this] show ?thesis by (simp add: calloc_run_def)
  qed
qed

lemma itemize_runs_positions:
  "itemize_runs rq bruns = Some rs \<Longrightarrow>
   mset (concat (map run_positions rs)) = mset (concat (map bidi_run_positions bruns)) \<and>
   (\<forall>r \<in> set rs. 0 \<le> run_len r)"
proof (induction bruns arbitrary: rs)
  case Nil
  then show ?case by simp
next
  case (Cons brun bruns)
  then obtain r1 r2 where r: "itemize_run rq brun = Some r1" "itemize_runs rq bruns = Some r2"
    "rs = r1 @ r2"
    by (auto split: option.splits)
  from itemize_run_positions [OF r(1)] Cons.IH [OF r(2)] r(3) show ?case by auto
qed

lemma length_run_positions: "0 \<le> run_len r \<Longrightarrow> int (length (run_positions r)) = run_len r"
  by (simp add: run_positions_def)

lemma sum_run_len:
  "\<forall>r \<in> set rs. 0 \<le> run_len r \<Longrightarrow>
   sum_list (map run_len rs) = int (length (concat (map run_positions rs)))"
  by (induction rs) (simp_all add: length_run_positions)

lemma upto_append: "i \<le> j \<Longrightarrow> j \<le> k + 1 \<Longrightarrow> [i..j - 1] @ [j..k] = [i..k]"
  for i j k :: int
proof (cases "j \<le> k")
  case True
  assume "i \<le> j"
  from upto_split1 [OF this True] show ?thesis by simp
next
  case False
  assume "j \<le> k + 1"
  with False have "j = k + 1" by simp
  then show ?thesis by simp
qed

lemma maximal_spans_positions:
  "concat (map (\<lambda>s. bidi_run_positions (level_run s)) (maximal_spans p levels)) =
   [int p..int (p + length levels) - 1]"
proof (induction p levels rule: maximal_spans.induct)
  case (1 p)
  show ?case by simp
next
  case (2 p x xs)
  let ?n = "Suc (length (takeWhile (\<lambda>y. y = x) xs))"
  let ?rest = "dropWhile (\<lambda>y. y = x) xs"
  have len: "length xs = length (takeWhile (\<lambda>y. y = x) xs) + length ?rest"
    by (metis length_append takeWhile_dropWhile_id)
  have first: "bidi_run_positions (level_run (p, ?n, x)) = [int p..int (p + ?n) - 1]"
    by (simp add: level_run_def bidi_run_positions_def)
  have "concat (map (\<lambda>s. bidi_run_positions (level_run s)) (maximal_spans p (x # xs))) =
        bidi_run_positions (level_run (p, ?n, x)) @
        concat (map (\<lambda>s. bidi_run_positions (level_run s)) (maximal_spans (p + ?n) ?rest))"
    by simp
  also have "\<dots> = [int p..int (p + ?n) - 1] @ [int (p + ?n)..int (p + ?n + length ?rest) - 1]"
    by (simp only: first "2.IH")
  also have "\<dots> = [int p..int (p + ?n + length ?rest) - 1]"
    by (rule upto_append) simp_all
  also have "p + ?n + length ?rest = p + length (x # xs)"
    using len by simp
  finally show ?case .
qed

lemma permuted_positions:
  assumes "mset bruns' = mset bruns"
  shows "mset (concat (map bidi_run_positions bruns')) = mset (concat (map bidi_run_positions bruns))"
proof -
  have "mset (concat (map f xs)) = (\<Sum>x \<in># mset xs. mset (f x))" for f :: "FriBidiRun \<Rightarrow> int list" and xs
    by (induction xs) simp_all
  with assms show ?thesis by simp
qed

lemma length_bidi_levels: "length (snd (bidi_levels E rq)) = length (rq_text rq)"
  by (simp add: bidi_levels_def)

lemma reordered_positions:
  assumes "\<forall>rs. mset (visual_order E rs) = mset rs"
  shows "mset (concat (map bidi_run_positions (fribidi_reorder_runs E (snd (bidi_levels E rq))))) =
         mset [0..int (length (rq_text rq)) - 1]"
proof -
  let ?spans = "maximal_spans 0 (snd (bidi_levels E rq))"
  have "mset (concat (map bidi_run_positions (fribidi_reorder_runs E (snd (bidi_levels E rq))))) =
        mset (concat (map bidi_run_positions (map level_run ?spans)))"
    unfolding fribidi_reorder_runs_def by (rule permuted_positions) (use assms in simp)
  also have "map bidi_run_positions (map level_run ?spans) =
        map (\<lambda>s. bidi_run_positions (level_run s)) ?spans"
    by simp
  also have "concat \<dots> = [int 0..int (0 + length (snd (bidi_levels E rq))) - 1]"
    by (rule maximal_spans_positions)
  finally show ?thesis by (simp add: length_bidi_levels)
qed


lemma raqm_resolve_scripts_result:
  assumes "raqm_resolve_scripts E rq = Some (resolved, rq0)"
  shows "\<exists>scripts. resolved \<and> rq0 = rq\<lparr>rq_scripts := Some scripts\<rparr> \<and>
           (case rq_scripts rq of
              Some old \<Rightarrow> scripts = old
            | None \<Rightarrow> resolved_scripts (hb_unicode_script E) (rq_text rq) = Some scripts)"
  using assms by (auto simp: raqm_resolve_scripts_def split: option.splits if_splits)

lemma raqm_itemize_success:
  assumes "raqm_itemize E rq = Some (True, rq1)"
  shows "\<exists>scripts new_runs.
           0 \<le> fst (bidi_levels E rq) \<and>
           (case rq_scripts rq of
              Some old \<Rightarrow> scripts = old
            | None \<Rightarrow> resolved_scripts (hb_unicode_script E) (rq_text rq) = Some scripts) \<and>
           fribidi_reorder_runs E (snd (bidi_levels E rq)) \<noteq> [] \<and>
           itemize_runs (rq\<lparr>rq_scripts := Some scripts\<rparr>)
             (fribidi_reorder_runs E (snd (bidi_levels E rq))) = Some new_runs \<and>
           rq1 = rq\<lparr>rq_scripts := Some scripts,
                     rq_runs := (if rq_runs rq = [] then new_runs else rq_runs rq)\<rparr>"
proof -
  from assms have lv: "0 \<le> fst (bidi_levels E rq)"
    by (auto simp: raqm_itemize_def split: if_splits)
  with assms obtain resolved rq0 where r: "raqm_resolve_scripts E rq = Some (resolved, rq0)"
    by (auto simp: raqm_itemize_def split: option.splits if_splits)
  from raqm_resolve_scripts_result [OF r] obtain scripts where
    sc: "resolved" "rq0 = rq\<lparr>rq_scripts := Some scripts\<rparr>"
      "case rq_scripts rq of Some old \<Rightarrow> scripts = old
       | None \<Rightarrow> resolved_scripts (hb_unicode_script E) (rq_text rq) = Some scripts"
    by blast
  from assms lv r sc(1,2) obtain new_runs where
    "itemize_runs rq0 (fribidi_reorder_runs E (snd (bidi_levels E rq))) = Some new_runs"
    "fribidi_reorder_runs E (snd (bidi_levels E rq)) \<noteq> []"
    "rq1 = rq0\<lparr>rq_runs := (if rq_runs rq0 = [] then new_runs else rq_runs rq0)\<rparr>"
    by (auto simp: raqm_itemize_def split: option.splits if_splits)
  with lv sc show ?thesis by auto
qed

lemma raqm_layout_success:
  assumes "raqm_layout E (Some rq) = Some (True, Some rq')"
  shows "rq_text rq \<noteq> [] \<and>
         (\<exists>rq1. raqm_itemize E rq = Some (True, rq1) \<and>
                rq' = rq1\<lparr>rq_runs := map (shape_run E rq1) (rq_runs rq1)\<rparr>)"
  using assms
  by (auto simp: raqm_layout_def raqm_shape_runs_def split: option.splits if_splits)

lemma shape_run_fields [simp]:
  "run_pos (shape_run E rq run) = run_pos run"
  "run_len (shape_run E rq run) = run_len run"
  "run_script (shape_run E rq run) = run_script run"
  "run_direction (shape_run E rq run) = run_direction run"
  "run_positions (shape_run E rq run) = run_positions run"
  "run_span (shape_run E rq run) = run_span run"
  by (simp_all add: shape_run_def run_positions_def run_span_def)







lemma split_forward_cong:
  "rq_scripts a = rq_scripts b \<Longrightarrow> rq_base_dir a = rq_base_dir b \<Longrightarrow>
   split_forward a brun j run acc = split_forward b brun j run acc"
proof (induction a brun j run acc rule: split_forward.induct)
  case (1 rq brun j run acc)
  from "1.prems" have e: "script_at rq = script_at b" "raqm_hb_dir rq = raqm_hb_dir b"
    by (auto simp: script_at_def raqm_hb_dir_def fun_eq_iff)
  show ?case
    by (subst split_forward.simps, subst (2) split_forward.simps)
       (use "1.IH" "1.prems" e in \<open>auto split: option.splits\<close>)
qed

lemma split_backward_cong:
  "rq_scripts a = rq_scripts b \<Longrightarrow> rq_base_dir a = rq_base_dir b \<Longrightarrow>
   split_backward a brun j run acc = split_backward b brun j run acc"
proof (induction a brun j run acc rule: split_backward.induct)
  case (1 rq brun j run acc)
  from "1.prems" have e: "script_at rq = script_at b" "raqm_hb_dir rq = raqm_hb_dir b"
    by (auto simp: script_at_def raqm_hb_dir_def fun_eq_iff)
  show ?case
    by (subst split_backward.simps, subst (2) split_backward.simps)
       (use "1.IH" "1.prems" e in \<open>auto split: option.splits\<close>)
qed

lemma itemize_runs_cong:
  assumes "rq_scripts a = rq_scripts b" and "rq_base_dir a = rq_base_dir b"
  shows "itemize_runs a bruns = itemize_runs b bruns"
proof -
  from assms have e: "script_at a = script_at b" "raqm_hb_dir a = raqm_hb_dir b"
    by (auto simp: script_at_def raqm_hb_dir_def fun_eq_iff)
  have "itemize_run a brun = itemize_run b brun" for brun
    by (simp add: itemize_run_def Let_def e split_forward_cong [OF assms]
          split_backward_cong [OF assms] split: option.splits)
  then show ?thesis by (induction bruns) (simp_all split: option.splits)
qed

lemma split_forward_nonempty: "split_forward rq brun j run acc = Some rs \<Longrightarrow> rs \<noteq> []"
proof (induction rq brun j run acc rule: split_forward.induct)
  case (1 rq brun j run acc)
  from "1.prems" show ?case
    by (subst (asm) split_forward.simps)
       (use "1.IH" in \<open>auto split: if_splits option.splits\<close>)
qed

lemma split_backward_nonempty: "split_backward rq brun j run acc = Some rs \<Longrightarrow> rs \<noteq> []"
proof (induction rq brun j run acc rule: split_backward.induct)
  case (1 rq brun j run acc)
  from "1.prems" show ?case
    by (subst (asm) split_backward.simps)
       (use "1.IH" in \<open>auto split: if_splits option.splits\<close>)
qed

lemma itemize_runs_nonempty:
  "itemize_runs rq bruns = Some rs \<Longrightarrow> bruns \<noteq> [] \<Longrightarrow> rs \<noteq> []"
  by (cases bruns)
     (auto simp: itemize_run_def Let_def split: option.splits if_splits
        dest: split_forward_nonempty split_backward_nonempty)

lemma bidi_levels_cong:
  "rq_text a = rq_text b \<Longrightarrow> rq_base_dir a = rq_base_dir b \<Longrightarrow> bidi_levels E a = bidi_levels E b"
  by (simp add: bidi_levels_def par_type_of_def)

lemma shape_run_again:
  assumes "rq_font a = rq_font b" "rq_text a = rq_text b" "rq_features a = rq_features b"
  shows "shape_run E a (shape_run E b run) = shape_run E b run"
  using assms by (simp add: shape_run_def)

lemma collect_glyphs_shaped:
  "collect_glyphs (map (shape_run E rq) runs) =
   Some (concat (map (\<lambda>run. map to_raqm_glyph (the (run_buffer (shape_run E rq run)))) runs))"
  by (induction runs) (simp_all add: shape_run_def)

lemma raqm_layout_shape:
  assumes "raqm_layout E (Some rq) = Some (True, Some rq1)"
  shows "\<exists>scripts runs.
           runs \<noteq> [] \<and> 0 \<le> fst (bidi_levels E rq) \<and> rq_text rq \<noteq> [] \<and>
           itemize_runs (rq\<lparr>rq_scripts := Some scripts\<rparr>)
             (fribidi_reorder_runs E (snd (bidi_levels E rq))) \<noteq> None \<and>
           fribidi_reorder_runs E (snd (bidi_levels E rq)) \<noteq> [] \<and>
           rq1 = rq\<lparr>rq_scripts := Some scripts,
                     rq_runs := map (shape_run E rq) runs\<rparr>"
proof -
  from raqm_layout_success [OF assms] obtain rq0 where
    ne: "rq_text rq \<noteq> []" and it: "raqm_itemize E rq = Some (True, rq0)"
    and rq1: "rq1 = rq0\<lparr>rq_runs := map (shape_run E rq0) (rq_runs rq0)\<rparr>"
    by blast
  from raqm_itemize_success [OF it] obtain scripts new_runs where
    s: "0 \<le> fst (bidi_levels E rq)"
      "fribidi_reorder_runs E (snd (bidi_levels E rq)) \<noteq> []"
      "itemize_runs (rq\<lparr>rq_scripts := Some scripts\<rparr>)
             (fribidi_reorder_runs E (snd (bidi_levels E rq))) = Some new_runs"
      "rq0 = rq\<lparr>rq_scripts := Some scripts,
                     rq_runs := (if rq_runs rq = [] then new_runs else rq_runs rq)\<rparr>"
    by blast
  let ?runs = "if rq_runs rq = [] then new_runs else rq_runs rq"
  from itemize_runs_nonempty [OF s(3,2)] have "?runs \<noteq> []" by simp
  moreover have "shape_run E rq0 = shape_run E rq"
    by (simp add: s(4) shape_run_def fun_eq_iff)
  with rq1 s(4) have "rq1 = rq\<lparr>rq_scripts := Some scripts, rq_runs := map (shape_run E rq) ?runs\<rparr>"
    by simp
  ultimately show ?thesis using s(1,2,3) ne by blast
qed

lemma raqm_layout_again:
  assumes "raqm_layout E (Some rq) = Some (True, Some rq1)"
  shows "raqm_layout E (Some (rq1\<lparr>rq_glyphs := g\<rparr>)) = Some (True, Some (rq1\<lparr>rq_glyphs := g\<rparr>))"
proof -
  from raqm_layout_shape [OF assms] obtain scripts runs new_runs where
    r: "runs \<noteq> []" "0 \<le> fst (bidi_levels E rq)" "rq_text rq \<noteq> []"
      "itemize_runs (rq\<lparr>rq_scripts := Some scripts\<rparr>)
             (fribidi_reorder_runs E (snd (bidi_levels E rq))) = Some new_runs"
      "fribidi_reorder_runs E (snd (bidi_levels E rq)) \<noteq> []"
      "rq1 = rq\<lparr>rq_scripts := Some scripts, rq_runs := map (shape_run E rq) runs\<rparr>"
    by blast
  let ?X = "rq1\<lparr>rq_glyphs := g\<rparr>"
  have lv: "bidi_levels E ?X = bidi_levels E rq"
    by (rule bidi_levels_cong) (simp_all add: r(6))
  have res: "raqm_resolve_scripts E ?X = Some (True, ?X)"
    by (simp add: raqm_resolve_scripts_def r(6))
  have "itemize_runs ?X (fribidi_reorder_runs E (snd (bidi_levels E rq))) =
        itemize_runs (rq\<lparr>rq_scripts := Some scripts\<rparr>) (fribidi_reorder_runs E (snd (bidi_levels E rq)))"
    by (rule itemize_runs_cong) (simp_all add: r(6))
  with r(4) have runs: "itemize_runs ?X (fribidi_reorder_runs E (snd (bidi_levels E rq))) = Some new_runs"
    by simp
  from r(1,6) have keep: "rq_runs ?X \<noteq> []" by simp
  from lv r(2,5) res runs keep have it: "raqm_itemize E ?X = Some (True, ?X)"
    by (simp add: raqm_itemize_def)
  have "map (shape_run E ?X) (rq_runs ?X) = rq_runs ?X"
    by (simp add: r(6) shape_run_again)
  then have sh: "raqm_shape_runs E ?X = (True, ?X)"
    by (simp add: raqm_shape_runs_def)
  from r(3,6) have "rq_text ?X \<noteq> []" by simp
  with it sh show ?thesis by (simp add: raqm_layout_def)
qed

lemma raqm_get_glyphs_after_layout:
  assumes "raqm_layout E (Some rq) = Some (True, Some rq1)"
  shows "\<exists>glyphs. raqm_get_glyphs (Some (rq1\<lparr>rq_glyphs := g\<rparr>)) True =
           Some (Some (rq1\<lparr>rq_glyphs := Some glyphs\<rparr>), Some glyphs, Some (length glyphs))"
proof -
  from raqm_layout_shape [OF assms] obtain scripts runs where
    "rq1 = rq\<lparr>rq_scripts := Some scripts, rq_runs := map (shape_run E rq) runs\<rparr>"
    by blast
  then show ?thesis
    by (simp add: raqm_get_glyphs_def collect_glyphs_shaped)
qed

lemma itemize_ignores_shaper:
  "raqm_itemize (with_shaper_status status E) rq = raqm_itemize E rq"
proof -
  have a: "bidi_levels (with_shaper_status status E) rq = bidi_levels E rq"
    by (simp add: bidi_levels_def with_shaper_status_def)
  have b: "fribidi_reorder_runs (with_shaper_status status E) = fribidi_reorder_runs E"
    by (simp add: fribidi_reorder_runs_def with_shaper_status_def fun_eq_iff)
  have c: "raqm_resolve_scripts (with_shaper_status status E) rq = raqm_resolve_scripts E rq"
    by (simp add: raqm_resolve_scripts_def with_shaper_status_def)
  show ?thesis unfolding raqm_itemize_def a b c ..
qed

lemma shape_ignores_status:
  "raqm_shape_runs (with_shaper_status status E) rq = raqm_shape_runs E rq"
  by (simp add: raqm_shape_runs_def shape_run_def with_shaper_status_def fun_eq_iff)

lemma layout_ignores_status:
  "raqm_layout (with_shaper_status status E) rqp = raqm_layout E rqp"
  unfolding raqm_layout_def itemize_ignores_shaper shape_ignores_status ..


section \<open>Lemmas on the one-shot entry points\<close>

lemma raqm_shape_u32_count:
  assumes "raqm_shape_u32 E scalars face direction features = Some (n, Some info)"
  shows "n = length info"
  using assms
  by (auto simp: raqm_shape_u32_def Let_def raqm_get_glyphs_def
        split: option.splits if_splits)

lemma remap_clusters_map:
  "n = length info \<Longrightarrow> i \<le> n \<Longrightarrow>
   \<forall>k. i \<le> k \<and> k < n \<longrightarrow> unat (glyph_cluster (info ! k)) \<le> length buf \<Longrightarrow>
   remap_clusters E buf i n info = Some (take i info @ map (remap_glyph E buf) (drop i info))"
proof (induction E buf i n info rule: remap_clusters.induct)
  case (1 E buf i n info)
  show ?case
  proof (cases "i < n")
    case False
    with "1.prems" show ?thesis by (subst remap_clusters.simps) simp
  next
    case True
    let ?c = "word_of_nat (length (fribidi_unicode_to_charset E (take (unat (glyph_cluster (info ! i))) buf))) :: 32 word"
    let ?info = "info[i := (info ! i)\<lparr>glyph_cluster := ?c\<rparr>]"
    from True "1.prems" have ok: "raqm_utf32_to_utf8_index E buf (glyph_cluster (info ! i)) = Some ?c"
      by (simp add: raqm_utf32_to_utf8_index_def)
    from True "1.prems"(1) have il: "i < length info" by simp
    have step: "remap_clusters E buf i n info = remap_clusters E buf (Suc i) n ?info"
      using True il ok by (subst remap_clusters.simps) simp
    have "remap_clusters E buf (Suc i) n ?info =
          Some (take (Suc i) ?info @ map (remap_glyph E buf) (drop (Suc i) ?info))"
      by (rule "1.IH" [OF True il ok]) (use True "1.prems" in auto)
    also have "take (Suc i) ?info = take i info @ [remap_glyph E buf (info ! i)]"
      using il by (simp add: take_Suc_conv_app_nth remap_glyph_def)
    also have "drop (Suc i) ?info = drop (Suc i) info" by simp
    finally show ?thesis
      using il by (simp add: step Cons_nth_drop_Suc [symmetric])
  qed
qed


section \<open>C8: the bracket stack stays inside its arrays\<close>

text \<open>
  C8. For every paragraph of length \<open>N\<close> the resolver's walk never leaves the arrays of
  the stack it created with capacity \<open>N\<close>. Before every iteration \<open>k\<close> the walk has a
  state (no earlier iteration has read or written outside an array) from which the loop
  goes on to the result of the whole loop; the stack has capacity \<open>N\<close> and arrays of
  \<open>N\<close> cells, and no script has been seen exactly when \<open>k = 0\<close>. A push is reached
  only when a script has been seen, so only for \<open>0 < k\<close>; there the stack is not full
  and the slot a push writes, \<open>size + 1\<close>, is less than \<open>N\<close> in both arrays, so that a
  push of any element succeeds and leaves a stack of size at most \<open>N - 1\<close>. The whole
  resolution therefore returns a script array. A push on a full stack returns false and
  leaves the stack as it was.
\<close>

theorem bracket_stack_in_bounds:
  "(\<forall>k. k \<le> length txt \<longrightarrow>
      (\<exists>st. resolve_prefix txt (resolve_init usc txt) k = Some st \<and>
            resolve_loop txt k st = resolve_loop txt 0 (resolve_init usc txt) \<and>
            stack_capacity (rs_stack st) = length txt \<and>
            length (stack_scripts (rs_stack st)) = length txt \<and>
            length (stack_pair_index (rs_stack st)) = length txt \<and>
            (last_script_index st = - 1) = (k = 0) \<and>
            (0 < k \<and> k < length txt \<longrightarrow>
               stack_size (rs_stack st) < stack_capacity (rs_stack st) \<and>
               push_slot (rs_stack st) < length (stack_scripts (rs_stack st)) \<and>
               push_slot (rs_stack st) < length (stack_pair_index (rs_stack st)) \<and>
               (\<forall>script pi. \<exists>stack.
                  raqm_stack_push (rs_stack st) script pi = Some (True, stack) \<and>
                  stack_size stack = push_slot (rs_stack st) \<and>
                  stack_size stack < length txt)))) \<and>
   (\<exists>final. resolved_scripts usc txt = Some final) \<and>
   (\<forall>stack script pi. stack_size stack = stack_capacity stack \<longrightarrow>
      raqm_stack_push stack script pi = Some (False, stack))"
proof (intro conjI allI impI)
  fix k assume k: "k \<le> length txt"
  from prefix_inv [OF this, of usc] obtain st where
    st: "resolve_prefix txt (resolve_init usc txt) k = Some st" "resolve_inv txt k st"
    by auto
  have bound: "stack_size (rs_stack st) < stack_capacity (rs_stack st) \<and>
               push_slot (rs_stack st) < length (stack_scripts (rs_stack st)) \<and>
               push_slot (rs_stack st) < length (stack_pair_index (rs_stack st)) \<and>
               (\<forall>script pi. \<exists>stack.
                  raqm_stack_push (rs_stack st) script pi = Some (True, stack) \<and>
                  stack_size stack = push_slot (rs_stack st) \<and>
                  stack_size stack < length txt)"
    if "0 < k \<and> k < length txt"
  proof -
    from that st(2) have slot: "push_slot (rs_stack st) < stack_capacity (rs_stack st)"
      and cap: "stack_capacity (rs_stack st) = length (stack_scripts (rs_stack st))"
        "stack_capacity (rs_stack st) = length (stack_pair_index (rs_stack st))"
        "stack_capacity (rs_stack st) = length txt"
      by (auto simp: resolve_inv_def push_slot_def)
    from push_in_bounds [OF slot cap(1,2)] slot cap show ?thesis
      by (simp add: push_slot_def)
  qed
  from resolve_loop_prefix [OF st(1) k] st bound
  show "\<exists>st. resolve_prefix txt (resolve_init usc txt) k = Some st \<and>
            resolve_loop txt k st = resolve_loop txt 0 (resolve_init usc txt) \<and>
            stack_capacity (rs_stack st) = length txt \<and>
            length (stack_scripts (rs_stack st)) = length txt \<and>
            length (stack_pair_index (rs_stack st)) = length txt \<and>
            (last_script_index st = - 1) = (k = 0) \<and>
            (0 < k \<and> k < length txt \<longrightarrow>
               stack_size (rs_stack st) < stack_capacity (rs_stack st) \<and>
               push_slot (rs_stack st) < length (stack_scripts (rs_stack st)) \<and>
               push_slot (rs_stack st) < length (stack_pair_index (rs_stack st)) \<and>
               (\<forall>script pi. \<exists>stack.
                  raqm_stack_push (rs_stack st) script pi = Some (True, stack) \<and>
                  stack_size stack = push_slot (rs_stack st) \<and>
                  stack_size stack < length txt))"
    by (auto simp: resolve_inv_def)
next
  from resolved_scripts_prefix [of "txt" usc] show "\<exists>final. resolved_scripts usc txt = Some final"
    by blast
next
  fix stack :: raqm_stack and script pi
  assume "stack_size stack = stack_capacity stack"
  then show "raqm_stack_push stack script pi = Some (False, stack)"
    by (simp add: raqm_stack_push_def)
qed

text \<open>
  Witness: the paragraph \<open>a(((\<close> before its last iteration, after two pushes, and a
  push on the full stack of capacity 0.
\<close>

theorem bracket_stack_in_bounds_witness:
  "(\<exists>st. resolve_prefix [0x61, 0x28, 0x28, 0x28]
            (resolve_init script_excerpt [0x61, 0x28, 0x28, 0x28]) 3 = Some st \<and>
         stack_capacity (rs_stack st) = 4 \<and>
         stack_size (rs_stack st) < stack_capacity (rs_stack st) \<and>
         push_slot (rs_stack st) < length (stack_scripts (rs_stack st)) \<and>
         push_slot (rs_stack st) < length (stack_pair_index (rs_stack st))) \<and>
   (\<exists>final. resolved_scripts script_excerpt [0x61, 0x28, 0x28, 0x28] = Some final) \<and>
   stack_size (raqm_stack_new 0) = stack_capacity (raqm_stack_new 0) \<and>
   raqm_stack_push (raqm_stack_new 0) HB_SCRIPT_LATIN 0 = Some (False, raqm_stack_new 0)"
proof -
  note t = bracket_stack_in_bounds [of "[0x61, 0x28, 0x28, 0x28]" script_excerpt]
  have full: "stack_size (raqm_stack_new 0) = stack_capacity (raqm_stack_new 0)"
    by (simp add: raqm_stack_new_def)
  from t have "\<exists>st. resolve_prefix [0x61, 0x28, 0x28, 0x28]
            (resolve_init script_excerpt [0x61, 0x28, 0x28, 0x28]) 3 = Some st \<and>
         stack_capacity (rs_stack st) = 4 \<and>
         stack_size (rs_stack st) < stack_capacity (rs_stack st) \<and>
         push_slot (rs_stack st) < length (stack_scripts (rs_stack st)) \<and>
         push_slot (rs_stack st) < length (stack_pair_index (rs_stack st))"
    by (elim conjE allE [of _ "3::nat"]) (auto simp: eval_nat_numeral)
  moreover from t have "\<exists>final. resolved_scripts script_excerpt [0x61, 0x28, 0x28, 0x28] = Some final"
    by blast
  moreover from t full have "raqm_stack_push (raqm_stack_new 0) HB_SCRIPT_LATIN 0 = Some (False, raqm_stack_new 0)"
    by blast
  ultimately show ?thesis using full by blast
qed


section \<open>C2: the script of a bracket pair\<close>

text \<open>
  C2, as amended. Take a paragraph \<open>pre \<cdot> OPEN \<cdot> t \<cdot> CLOSE \<cdot> suf\<close> where OPEN and CLOSE
  are a pair of the table and have Common script, \<open>pre\<close> is not empty and all of one
  concrete script \<open>X\<close>, and every scalar of \<open>t\<close> has the concrete script \<open>F\<close>. Script
  resolution assigns \<open>X\<close>, the script of the text before the opener, to the position of
  the opener and to the position of the closer (whatever follows the closer).
\<close>

theorem bracket_pair_script:
  assumes pair: "(opn, cls) \<in> set (bracket_pairs paired_chars)"
    and co: "usc opn = HB_SCRIPT_COMMON" and cc: "usc cls = HB_SCRIPT_COMMON"
    and pre: "pre \<noteq> []" "\<forall>c \<in> set pre. usc c = X" "concrete_script X"
    and t: "\<forall>c \<in> set t. usc c = F" "concrete_script F"
  shows "\<exists>final. resolved_scripts usc (pre @ opn # t @ cls # suf) = Some final \<and>
           final ! length pre = X \<and> final ! (length pre + 1 + length t) = X"
proof -
  define tx where "tx = pre @ opn # t @ cls # suf"
  define P where "P = length pre"
  define Q where "Q = P + 1 + length t"
  note pt = pair_table [OF pair]
  have P0: "0 < P" and PN: "P < length tx" and QN: "Q < length tx" and PQ: "P < Q"
    using pre(1) by (simp_all add: P_def Q_def tx_def)
  have at_pre: "usc (tx ! j) = X" if "j < P" for j
    using that pre(2) by (simp add: tx_def P_def nth_append)
  have at_P: "tx ! P = opn" by (simp add: tx_def P_def)
  have at_t: "usc (tx ! j) = F" if "P < j" "j < Q" for j
  proof -
    define d where "d = j - (P + 1)"
    from that have d: "j = P + 1 + d" "d < length t"
      by (simp_all add: d_def Q_def)
    then have "tx ! j = t ! d" by (simp add: tx_def P_def nth_append)
    with t(1) d show ?thesis by simp
  qed
  have at_Q: "tx ! Q = cls" by (simp add: tx_def P_def Q_def nth_append)
  from resolved_scripts_prefix [of tx usc] obtain final where
    res: "resolved_scripts usc tx = Some final" by blast
  \<comment> \<open>the text before the opener\<close>
  have "\<exists>st'. resolve_prefix tx (resolve_init usc tx) (0 + P) = Some st' \<and>
           rs_stack st' = rs_stack (resolve_init usc tx) \<and>
           (0 < P \<longrightarrow> last_script_value st' = usc (tx ! (0 + P - 1)))"
    by (rule concrete_stretch) (use PN at_pre pre(3) in simp_all)
  with P0 at_pre [of "P - 1"] obtain stA where
    stA: "resolve_prefix tx (resolve_init usc tx) P = Some stA"
      "rs_stack stA = raqm_stack_new (length tx)" "last_script_value stA = X"
    by (auto simp: resolve_init_def)
  from prefix_invariants [of P tx usc] PN stA(1) have
    invA: "resolve_inv tx P stA" and unA: "untouched usc tx P stA"
    by auto
  from unA PN at_P co have scrA: "rs_scripts stA ! P = HB_SCRIPT_COMMON"
    by (simp add: untouched_def)
  \<comment> \<open>the opener\<close>
  from invA PN obtain stB where stB: "resolve_step tx P stA = Some stB"
    "rs_scripts stB = (rs_scripts stA)[P := X]"
    "stack_size (rs_stack stB) = 1" "stack_scripts (rs_stack stB) ! 1 = X"
    "stack_pair_index (rs_stack stB) ! 1 = get_pair_index opn"
  proof (cases rule: step_cases)
    case opener
    from opener(5) stA(2) have "1 < length tx" by (simp add: push_slot_def raqm_stack_new_def)
    with opener stA at_P show ?thesis
      by (intro that [of "the (resolve_step tx P stA)"])
         (simp_all add: push_slot_def raqm_stack_new_def)
  qed (use scrA P0 pt at_P common_not_inherited in auto)
  from stA(1) stB(1) have preB: "resolve_prefix tx (resolve_init usc tx) (Suc P) = Some stB"
    by simp
  from invA PN have "P < length (rs_scripts stA)" by (simp add: resolve_inv_def)
  with stB(2) final_is_step_value [OF res preB PN] have fP: "final ! P = X" by simp
  \<comment> \<open>the text between the brackets\<close>
  have "\<exists>st'. resolve_prefix tx (resolve_init usc tx) (Suc P + length t) = Some st' \<and>
           rs_stack st' = rs_stack stB \<and>
           (0 < length t \<longrightarrow> last_script_value st' = usc (tx ! (Suc P + length t - 1)))"
    by (rule concrete_stretch [OF preB]) (use QN at_t t(2) in \<open>simp_all add: Q_def\<close>)
  then obtain stC where stC: "resolve_prefix tx (resolve_init usc tx) Q = Some stC"
    "rs_stack stC = rs_stack stB"
    by (auto simp: Q_def)
  from prefix_invariants [of Q tx usc] QN stC(1) have
    invC: "resolve_inv tx Q stC" and unC: "untouched usc tx Q stC"
    by auto
  from unC QN at_Q cc have scrC: "rs_scripts stC ! Q = HB_SCRIPT_COMMON"
    by (simp add: untouched_def)
  from invC PQ have lsiC: "last_script_index stC \<noteq> - 1" by (simp add: resolve_inv_def)
  from invC QN have lenC: "Q < length (rs_scripts stC)"
    "length (stack_pair_index (rs_stack stC)) = length tx"
    "length (stack_scripts (rs_stack stC)) = length tx"
    by (simp_all add: resolve_inv_def)
  \<comment> \<open>the closer\<close>
  from PQ QN have N1: "1 < length tx" by simp
  have "pop_until (get_pair_index (tx ! Q) AND NOT 1) (rs_stack stC) = Some (rs_stack stC)"
    by (rule pop_until_top_match) (use stC(2) stB lenC N1 at_Q pt in simp_all)
  from step_close [OF scrC lsiC _ _ this] at_Q pt stC(2) stB(3,4) lenC N1
  have "resolve_step tx Q stC =
          Some (stC\<lparr>rs_stack := rs_stack stC, rs_scripts := (rs_scripts stC)[Q := X],
                    last_script_value := X, last_set_index := int Q\<rparr>)"
    by (simp add: raqm_stack_top_def)
  with stC(1) have "resolve_prefix tx (resolve_init usc tx) (Suc Q) =
          Some (stC\<lparr>rs_stack := rs_stack stC, rs_scripts := (rs_scripts stC)[Q := X],
                    last_script_value := X, last_set_index := int Q\<rparr>)"
    by simp
  from final_is_step_value [OF res this QN] lenC have fQ: "final ! Q = X" by simp
  from res fP fQ show ?thesis by (simp add: tx_def P_def Q_def)
qed

text \<open>Witness: \<open>a ( U+0628 ) c\<close>, Latin around an Arabic letter in parentheses.\<close>

theorem bracket_pair_script_witness:
  "(0x28, 0x29) \<in> set (bracket_pairs paired_chars) \<and>
   script_excerpt 0x28 = HB_SCRIPT_COMMON \<and> script_excerpt 0x29 = HB_SCRIPT_COMMON \<and>
   [0x61] \<noteq> ([] :: FriBidiChar list) \<and>
   list_all (\<lambda>c. script_excerpt c = HB_SCRIPT_LATIN) [0x61] \<and>
   concrete_script HB_SCRIPT_LATIN \<and>
   list_all (\<lambda>c. script_excerpt c = HB_SCRIPT_ARABIC) [0x628] \<and>
   concrete_script HB_SCRIPT_ARABIC \<and>
   (\<exists>final. resolved_scripts script_excerpt ([0x61] @ 0x28 # [0x628] @ 0x29 # [0x63]) = Some final \<and>
      final ! length [0x61 :: FriBidiChar] = HB_SCRIPT_LATIN \<and>
      final ! (length [0x61 :: FriBidiChar] + 1 + length [0x628 :: FriBidiChar]) = HB_SCRIPT_LATIN)"
proof -
  have h1: "(0x28, 0x29) \<in> set (bracket_pairs paired_chars)"
    by (simp add: paired_chars_def)
  have h2: "script_excerpt 0x28 = HB_SCRIPT_COMMON" "script_excerpt 0x29 = HB_SCRIPT_COMMON"
    by (simp_all add: script_excerpt_def)
  have h3: "[0x61] \<noteq> ([] :: FriBidiChar list)" by simp
  have h4: "\<forall>c \<in> set [0x61]. script_excerpt c = HB_SCRIPT_LATIN"
    by (simp add: script_excerpt_def)
  have h5: "concrete_script HB_SCRIPT_LATIN" "concrete_script HB_SCRIPT_ARABIC"
    by (simp_all add: concrete_script_def HB_SCRIPT_LATIN_def HB_SCRIPT_ARABIC_def
          HB_SCRIPT_COMMON_def HB_SCRIPT_INHERITED_def)
  have h6: "\<forall>c \<in> set [0x628]. script_excerpt c = HB_SCRIPT_ARABIC"
    by (simp add: script_excerpt_def)
  from bracket_pair_script [OF h1 h2 h3 h4 h5(1) h6 h5(2), of "[0x63]"] h1 h2 h4 h5 h6
  show ?thesis by (simp add: list_all_iff)
qed

text \<open>
  Counterexample to C2 as it was stated: in \<open>a ( U+0628 ) c\<close> the text around the
  brackets is Latin and the text between them Arabic, and neither bracket resolves to
  Arabic.
\<close>

theorem bracket_pair_script_counterexample:
  "(0x28, 0x29) \<in> set (bracket_pairs paired_chars) \<and>
   script_excerpt 0x28 = HB_SCRIPT_COMMON \<and> script_excerpt 0x29 = HB_SCRIPT_COMMON \<and>
   script_excerpt 0x61 = HB_SCRIPT_LATIN \<and> script_excerpt 0x63 = HB_SCRIPT_LATIN \<and>
   script_excerpt 0x628 = HB_SCRIPT_ARABIC \<and> HB_SCRIPT_ARABIC \<noteq> HB_SCRIPT_LATIN \<and>
   concrete_script HB_SCRIPT_LATIN \<and> concrete_script HB_SCRIPT_ARABIC \<and>
   resolved_scripts script_excerpt [0x61, 0x28, 0x628, 0x29, 0x63] =
     Some [HB_SCRIPT_LATIN, HB_SCRIPT_LATIN, HB_SCRIPT_ARABIC, HB_SCRIPT_LATIN, HB_SCRIPT_LATIN] \<and>
   [HB_SCRIPT_LATIN, HB_SCRIPT_LATIN, HB_SCRIPT_ARABIC, HB_SCRIPT_LATIN, HB_SCRIPT_LATIN] ! 1
     \<noteq> HB_SCRIPT_ARABIC \<and>
   [HB_SCRIPT_LATIN, HB_SCRIPT_LATIN, HB_SCRIPT_ARABIC, HB_SCRIPT_LATIN, HB_SCRIPT_LATIN] ! 3
     \<noteq> HB_SCRIPT_ARABIC"
proof -
  have "(0x28, 0x29) \<in> set (bracket_pairs paired_chars)"
    by (simp add: paired_chars_def)
  moreover have "script_excerpt 0x28 = HB_SCRIPT_COMMON" "script_excerpt 0x29 = HB_SCRIPT_COMMON"
    "script_excerpt 0x61 = HB_SCRIPT_LATIN" "script_excerpt 0x63 = HB_SCRIPT_LATIN"
    "script_excerpt 0x628 = HB_SCRIPT_ARABIC"
    by (simp_all add: script_excerpt_def)
  moreover have ne: "HB_SCRIPT_ARABIC \<noteq> HB_SCRIPT_LATIN"
    by (simp add: HB_SCRIPT_LATIN_def HB_SCRIPT_ARABIC_def)
  moreover have "concrete_script HB_SCRIPT_LATIN" "concrete_script HB_SCRIPT_ARABIC"
    by code_simp+
  moreover have "resolved_scripts script_excerpt [0x61, 0x28, 0x628, 0x29, 0x63] =
        Some [HB_SCRIPT_LATIN, HB_SCRIPT_LATIN, HB_SCRIPT_ARABIC, HB_SCRIPT_LATIN, HB_SCRIPT_LATIN]"
    by code_simp
  ultimately show ?thesis using ne [symmetric] by simp
qed


section \<open>C3: what Common and Inherited scalars resolve to\<close>

text \<open>
  C3, as amended. Script resolution returns an array of the length of the text. A scalar
  at a position \<open>i > 0\<close> whose own script is Common or Inherited resolves to the resolved
  script of position \<open>i - 1\<close>, unless it is a Common closing bracket of the table; such a
  bracket resolves either to the script of position \<open>i - 1\<close> too or to the resolved script
  of an earlier Common opening bracket of its pair (the one the bracket stack holds).
  Consequently, when the first scalar of the paragraph has a concrete script, no element
  of the resolved array is Common or Inherited.
\<close>

theorem common_inherited_propagation:
  "\<exists>final. resolved_scripts usc txt = Some final \<and> length final = length txt \<and>
     (\<forall>i. 0 < i \<and> i < length txt \<and> \<not> concrete_script (usc (txt ! i)) \<longrightarrow>
          final ! i = final ! (i - 1) \<or>
          (is_closer usc (txt ! i) \<and>
           (\<exists>j. 0 < j \<and> j < i \<and> is_opener usc (txt ! j) \<and>
                get_pair_index (txt ! j) = get_pair_index (txt ! i) AND NOT 1 \<and>
                final ! i = final ! j))) \<and>
     (txt \<noteq> [] \<and> concrete_script (usc (txt ! 0)) \<longrightarrow> (\<forall>s \<in> set final. concrete_script s))"
proof -
  from prefix_invariants [of "length txt" "txt" usc] obtain stN where
    stN: "resolve_prefix txt (resolve_init usc txt) (length txt) = Some stN"
      "resolve_inv txt (length txt) stN"
      "concrete_script (usc (txt ! 0)) \<longrightarrow> concrete_so_far (length txt) stN"
    by auto
  define final where "final = rs_scripts stN"
  from resolve_loop_end [OF stN(1)] have res: "resolved_scripts usc txt = Some final"
    by (simp add: resolved_scripts_def final_def)
  from stN(2) have len: "length final = length txt" by (simp add: final_def resolve_inv_def)
  have main: "final ! i = final ! (i - 1) \<or>
          (is_closer usc (txt ! i) \<and>
           (\<exists>j. 0 < j \<and> j < i \<and> is_opener usc (txt ! j) \<and>
                get_pair_index (txt ! j) = get_pair_index (txt ! i) AND NOT 1 \<and>
                final ! i = final ! j))"
    if i: "0 < i" "i < length txt" "\<not> concrete_script (usc (txt ! i))" for i
  proof -
    from prefix_invariants [of i "txt" usc] i obtain st where
      st: "resolve_prefix txt (resolve_init usc txt) i = Some st" "resolve_inv txt i st"
        "untouched usc txt i st" "stack_history usc txt i st"
      by auto
    from step_inv [OF st(2) i(2)] obtain st' where st': "resolve_step txt i st = Some st'"
      by auto
    with st(1) have pre': "resolve_prefix txt (resolve_init usc txt) (Suc i) = Some st'" by simp
    from i(1) st(1) have pre: "resolve_prefix txt (resolve_init usc txt) (Suc (i - 1)) = Some st"
      by simp
    have fi: "final ! i = rs_scripts st' ! i"
      by (rule final_is_step_value [OF res pre' i(2)])
    have fp: "final ! (i - 1) = rs_scripts st ! (i - 1)"
      by (rule final_is_step_value [OF res pre]) (use i in simp)
    have fj: "final ! j = rs_scripts st' ! j" if "j < i" for j
    proof -
      from that obtain d where d: "i = Suc j + d" using less_iff_Suc_add by auto
      from prefix_invariants [of "Suc j" "txt" usc] i that obtain sj where
        sj: "resolve_prefix txt (resolve_init usc txt) (Suc j) = Some sj" by auto
      have "rs_scripts st' ! j = rs_scripts sj ! j"
        by (rule prefix_stable [OF sj, of "Suc d"]) (use pre' d i in simp_all)
      moreover have "final ! j = rs_scripts sj ! j"
        by (rule final_is_step_value [OF res sj]) (use that i in simp)
      ultimately show ?thesis by simp
    qed
    from step_value [OF st(2) i(2,1) st(3,4) i(3) st'] show ?thesis
      using fi fp fj by auto
  qed
  have conc: "\<forall>s \<in> set final. concrete_script s" if "txt \<noteq> []" "concrete_script (usc (txt ! 0))"
    using stN(3) that len by (auto simp: concrete_so_far_def final_def in_set_conv_nth)
  from res len main conc show ?thesis by blast
qed

text \<open>
  Witness: \<open>a ! U+0300 ( b\<close>. The exclamation mark (Common, not a bracket) and the
  combining accent (Inherited) take the script of the position before them, and no
  sentinel is left.
\<close>

theorem common_inherited_propagation_witness:
  "\<exists>final. resolved_scripts script_excerpt [0x61, 0x21, 0x300, 0x28, 0x62] = Some final \<and>
     length final = 5 \<and> final ! 1 = final ! 0 \<and> final ! 2 = final ! 1 \<and>
     list_all concrete_script final"
proof -
  let ?T = "[0x61, 0x21, 0x300, 0x28, 0x62] :: FriBidiChar list"
  from common_inherited_propagation [of script_excerpt ?T] obtain final where
    f: "resolved_scripts script_excerpt ?T = Some final" "length final = length ?T"
    and p: "\<And>i. 0 < i \<Longrightarrow> i < length ?T \<Longrightarrow> \<not> concrete_script (script_excerpt (?T ! i)) \<Longrightarrow>
          final ! i = final ! (i - 1) \<or> is_closer script_excerpt (?T ! i)"
    and c: "?T \<noteq> [] \<and> concrete_script (script_excerpt (?T ! 0)) \<longrightarrow>
          (\<forall>s \<in> set final. concrete_script s)"
    by blast
  have h1: "\<not> concrete_script (script_excerpt (?T ! 1))" "\<not> is_closer script_excerpt (?T ! 1)"
    by code_simp+
  have h2: "\<not> concrete_script (script_excerpt (?T ! 2))" "\<not> is_closer script_excerpt (?T ! 2)"
    by code_simp+
  have h0: "concrete_script (script_excerpt (?T ! 0))"
    by code_simp
  from p [of 1] h1 have "final ! 1 = final ! 0" by simp
  moreover from p [of 2] h2 have "final ! 2 = final ! 1" by simp
  moreover from c h0 have "list_all concrete_script final" by (simp add: list_all_iff)
  ultimately show ?thesis using f by simp
qed

text \<open>
  Counterexample to C3 as it was stated. In \<open>a ( U+0628 )\<close> the closing parenthesis,
  a Common scalar at position 3, resolves to Latin, the script pushed with its opener,
  and not to Arabic, the resolved script of position 2. In \<open>! a\<close> the Common scalar at
  position 0 stays Common although a Latin scalar follows.
\<close>

theorem common_inherited_propagation_counterexample:
  "script_excerpt ([0x61, 0x28, 0x628, 0x29] ! 3) = HB_SCRIPT_COMMON \<and>
   resolved_scripts script_excerpt [0x61, 0x28, 0x628, 0x29] =
     Some [HB_SCRIPT_LATIN, HB_SCRIPT_LATIN, HB_SCRIPT_ARABIC, HB_SCRIPT_LATIN] \<and>
   [HB_SCRIPT_LATIN, HB_SCRIPT_LATIN, HB_SCRIPT_ARABIC, HB_SCRIPT_LATIN] ! 3 \<noteq>
   [HB_SCRIPT_LATIN, HB_SCRIPT_LATIN, HB_SCRIPT_ARABIC, HB_SCRIPT_LATIN] ! (3 - 1) \<and>
   script_excerpt ([0x21, 0x61] ! 0) = HB_SCRIPT_COMMON \<and>
   script_excerpt ([0x21, 0x61] ! 1) = HB_SCRIPT_LATIN \<and>
   concrete_script HB_SCRIPT_LATIN \<and>
   resolved_scripts script_excerpt [0x21, 0x61] = Some [HB_SCRIPT_COMMON, HB_SCRIPT_LATIN]"
proof -
  have "resolved_scripts script_excerpt [0x61, 0x28, 0x628, 0x29] =
        Some [HB_SCRIPT_LATIN, HB_SCRIPT_LATIN, HB_SCRIPT_ARABIC, HB_SCRIPT_LATIN]"
    by code_simp
  moreover have "script_excerpt ([0x61, 0x28, 0x628, 0x29] ! 3) = HB_SCRIPT_COMMON"
    by code_simp
  moreover have "HB_SCRIPT_LATIN \<noteq> HB_SCRIPT_ARABIC"
    by (simp add: HB_SCRIPT_LATIN_def HB_SCRIPT_ARABIC_def)
  moreover have "resolved_scripts script_excerpt [0x21, 0x61] =
        Some [HB_SCRIPT_COMMON, HB_SCRIPT_LATIN]"
    by code_simp
  moreover have "script_excerpt ([0x21, 0x61] ! 0) = HB_SCRIPT_COMMON"
    "script_excerpt ([0x21, 0x61] ! 1) = HB_SCRIPT_LATIN" "concrete_script HB_SCRIPT_LATIN"
    by code_simp+
  ultimately show ?thesis by simp
qed


section \<open>C1: the shape runs cover the paragraph\<close>

text \<open>
  C1. Let layout succeed for a paragraph of length \<open>N\<close>; the reordering collaborator
  permutes the level runs it is given. Then \<open>N \<ge> 1\<close>, and the shape runs that the
  itemization produces, from the bidi runs of the paragraph and the script array the
  context holds after resolution, cover every scalar exactly once: their lengths sum to
  \<open>N\<close>, and the logical positions \<open>pos, \<dots>, pos + len - 1\<close> of all of them together
  are, as a multiset, exactly \<open>0, \<dots>, N - 1\<close>. In a context that held no run list
  before, as every context does before its first layout, these runs, shaped, are the run
  list of the context afterwards, so the same holds of the runs the context holds.
\<close>

theorem shape_runs_cover_paragraph:
  assumes ok: "raqm_layout E (Some rq) = Some (True, Some rq')"
    and perm: "\<forall>rs. mset (visual_order E rs) = mset rs"
  shows "\<exists>scripts new_runs.
           rq_scripts rq' = Some scripts \<and>
           itemize_runs (rq\<lparr>rq_scripts := Some scripts\<rparr>)
             (fribidi_reorder_runs E (snd (bidi_levels E rq))) = Some new_runs \<and>
           1 \<le> length (rq_text rq) \<and>
           sum_list (map run_len new_runs) = int (length (rq_text rq)) \<and>
           mset (concat (map run_positions new_runs)) = mset [0..int (length (rq_text rq)) - 1] \<and>
           (rq_runs rq = [] \<longrightarrow>
              rq_runs rq' = map (shape_run E rq) new_runs \<and>
              sum_list (map run_len (rq_runs rq')) = int (length (rq_text rq)) \<and>
              mset (concat (map run_positions (rq_runs rq'))) =
                mset [0..int (length (rq_text rq)) - 1])"
proof -
  from raqm_layout_success [OF ok] obtain rq1 where
    ne: "rq_text rq \<noteq> []" and it: "raqm_itemize E rq = Some (True, rq1)"
    and rq': "rq' = rq1\<lparr>rq_runs := map (shape_run E rq1) (rq_runs rq1)\<rparr>"
    by blast
  from raqm_itemize_success [OF it] obtain scripts new_runs where
    new: "itemize_runs (rq\<lparr>rq_scripts := Some scripts\<rparr>)
             (fribidi_reorder_runs E (snd (bidi_levels E rq))) = Some new_runs"
    and rq1: "rq1 = rq\<lparr>rq_scripts := Some scripts,
                     rq_runs := (if rq_runs rq = [] then new_runs else rq_runs rq)\<rparr>"
    by blast
  from itemize_runs_positions [OF new] reordered_positions [OF perm, of rq]
  have pos: "mset (concat (map run_positions new_runs)) = mset [0..int (length (rq_text rq)) - 1]"
    and lens: "\<forall>r \<in> set new_runs. 0 \<le> run_len r"
    by simp_all
  have "sum_list (map run_len new_runs) = int (length (concat (map run_positions new_runs)))"
    by (rule sum_run_len [OF lens])
  also have "\<dots> = int (size (mset (concat (map run_positions new_runs))))"
    by simp
  also have "\<dots> = int (length (rq_text rq))"
    by (simp only: pos size_mset) simp
  finally have sum: "sum_list (map run_len new_runs) = int (length (rq_text rq))" .
  from ne have one: "1 \<le> length (rq_text rq)" by (cases "rq_text rq") simp_all
  have sh: "shape_run E rq1 = shape_run E rq"
    by (simp add: rq1 shape_run_def fun_eq_iff)
  from rq' rq1 have sc: "rq_scripts rq' = Some scripts" by simp
  have held: "rq_runs rq' = map (shape_run E rq) new_runs \<and>
      sum_list (map run_len (rq_runs rq')) = int (length (rq_text rq)) \<and>
      mset (concat (map run_positions (rq_runs rq'))) = mset [0..int (length (rq_text rq)) - 1]"
    if "rq_runs rq = []"
  proof -
    from that rq' rq1 sh have "rq_runs rq' = map (shape_run E rq) new_runs" by simp
    with pos sum show ?thesis by (simp add: comp_def)
  qed
  from sc new one sum pos held show ?thesis by blast
qed

text \<open>
  Witness: \<open>a b U+0628 U+0629 c\<close> in a context without a run list gives a Latin run of
  two, an Arabic run of two and a Latin run of one.
\<close>

theorem shape_runs_cover_paragraph_witness:
  "rq_runs sample_context = [] \<and>
   (\<forall>rs. mset (visual_order excerpt rs) = mset rs) \<and>
   (\<exists>rq'. raqm_layout excerpt (Some sample_context) = Some (True, Some rq') \<and>
      map run_span (rq_runs rq') =
        [(0, 2, HB_SCRIPT_LATIN), (2, 2, HB_SCRIPT_ARABIC), (4, 1, HB_SCRIPT_LATIN)] \<and>
      sum_list (map run_len (rq_runs rq')) = 5 \<and>
      mset (concat (map run_positions (rq_runs rq'))) = mset [0..4])"
proof -
  let ?r = "the (snd (the (raqm_layout excerpt (Some sample_context))))"
  have ok: "raqm_layout excerpt (Some sample_context) = Some (True, Some ?r)"
    by code_simp
  have fresh: "rq_runs sample_context = []"
    by code_simp
  have perm: "\<forall>rs. mset (visual_order excerpt rs) = mset rs"
    by (simp add: excerpt_def)
  have len: "length (rq_text sample_context) = 5"
    by code_simp
  have spans: "map run_span (rq_runs ?r) =
        [(0, 2, HB_SCRIPT_LATIN), (2, 2, HB_SCRIPT_ARABIC), (4, 1, HB_SCRIPT_LATIN)]"
    by code_simp
  from shape_runs_cover_paragraph [OF ok perm] fresh len
  have cover: "sum_list (map run_len (rq_runs ?r)) = 5"
    "mset (concat (map run_positions (rq_runs ?r))) = mset [0..4]"
    by auto
  show ?thesis
    by (intro conjI exI [of _ "?r"]) (rule ok fresh perm spans cover)+
qed


section \<open>C7: top-to-bottom paragraphs\<close>





section \<open>C4: laying out twice\<close>

text \<open>
  C4. Let layout succeed on a context and leave it in the state \<open>rq1\<close>. Then
  \<^verbatim>\<open>raqm_get_glyphs\<close> returns a glyph array; a second layout, with no change to the
  context in between but the glyph array that \<^verbatim>\<open>raqm_get_glyphs\<close> has stored, succeeds
  and leaves the context as it was; and \<^verbatim>\<open>raqm_get_glyphs\<close> then returns the same
  array of the same length. The second layout also succeeds, and changes nothing, when
  \<^verbatim>\<open>raqm_get_glyphs\<close> was not called in between. The collaborators are functions: the
  same call gives the same answer.
\<close>

theorem layout_idempotent:
  assumes "raqm_layout E (Some rq) = Some (True, Some rq1)"
  shows "\<exists>glyphs.
           raqm_get_glyphs (Some rq1) True =
             Some (Some (rq1\<lparr>rq_glyphs := Some glyphs\<rparr>), Some glyphs, Some (length glyphs)) \<and>
           raqm_layout E (Some (rq1\<lparr>rq_glyphs := Some glyphs\<rparr>)) =
             Some (True, Some (rq1\<lparr>rq_glyphs := Some glyphs\<rparr>)) \<and>
           raqm_get_glyphs (Some (rq1\<lparr>rq_glyphs := Some glyphs\<rparr>)) True =
             Some (Some (rq1\<lparr>rq_glyphs := Some glyphs\<rparr>), Some glyphs, Some (length glyphs)) \<and>
           raqm_layout E (Some rq1) = Some (True, Some rq1)"
proof -
  from raqm_get_glyphs_after_layout [OF assms, of "rq_glyphs rq1"] obtain glyphs where
    g1: "raqm_get_glyphs (Some rq1) True =
           Some (Some (rq1\<lparr>rq_glyphs := Some glyphs\<rparr>), Some glyphs, Some (length glyphs))"
    by auto
  from raqm_get_glyphs_after_layout [OF assms, of "Some glyphs"] g1
  have g2: "raqm_get_glyphs (Some (rq1\<lparr>rq_glyphs := Some glyphs\<rparr>)) True =
           Some (Some (rq1\<lparr>rq_glyphs := Some glyphs\<rparr>), Some glyphs, Some (length glyphs))"
    by (auto simp: raqm_get_glyphs_def split: option.splits)
  from raqm_layout_again [OF assms, of "rq_glyphs rq1"]
  have l1: "raqm_layout E (Some rq1) = Some (True, Some rq1)" by simp
  from g1 g2 l1 raqm_layout_again [OF assms, of "Some glyphs"] show ?thesis by blast
qed

text \<open>Witness: \<open>a b U+0628 U+0629 c\<close>, whose glyphs carry the clusters 0, 1, 3, 2, 4.\<close>

theorem layout_idempotent_witness:
  "\<exists>rq1 glyphs.
     raqm_layout excerpt (Some sample_context) = Some (True, Some rq1) \<and>
     raqm_get_glyphs (Some rq1) True =
       Some (Some (rq1\<lparr>rq_glyphs := Some glyphs\<rparr>), Some glyphs, Some (length glyphs)) \<and>
     raqm_layout excerpt (Some (rq1\<lparr>rq_glyphs := Some glyphs\<rparr>)) =
       Some (True, Some (rq1\<lparr>rq_glyphs := Some glyphs\<rparr>)) \<and>
     raqm_get_glyphs (Some (rq1\<lparr>rq_glyphs := Some glyphs\<rparr>)) True =
       Some (Some (rq1\<lparr>rq_glyphs := Some glyphs\<rparr>), Some glyphs, Some (length glyphs)) \<and>
     map glyph_cluster glyphs = [0, 1, 3, 2, 4]"
proof -
  let ?r = "the (snd (the (raqm_layout excerpt (Some sample_context))))"
  have ok: "raqm_layout excerpt (Some sample_context) = Some (True, Some ?r)"
    by code_simp
  have cl: "map glyph_cluster (the (fst (snd (the (raqm_get_glyphs (Some ?r) True))))) =
      [0, 1, 3, 2, 4]"
    by code_simp
  from layout_idempotent [OF ok] obtain glyphs where
    g: "raqm_get_glyphs (Some ?r) True =
          Some (Some (?r\<lparr>rq_glyphs := Some glyphs\<rparr>), Some glyphs, Some (length glyphs))"
       "raqm_layout excerpt (Some (?r\<lparr>rq_glyphs := Some glyphs\<rparr>)) =
          Some (True, Some (?r\<lparr>rq_glyphs := Some glyphs\<rparr>))"
       "raqm_get_glyphs (Some (?r\<lparr>rq_glyphs := Some glyphs\<rparr>)) True =
          Some (Some (?r\<lparr>rq_glyphs := Some glyphs\<rparr>), Some glyphs, Some (length glyphs))"
    by blast
  from g(1) cl have c: "map glyph_cluster glyphs = [0, 1, 3, 2, 4]" by simp
  show ?thesis
    by (intro exI [of _ "?r"] exI [of _ glyphs] conjI) (rule ok g c)+
qed


section \<open>C5: the status of the shaper\<close>

text \<open>
  C5, as amended. Layout does not look at the status the shaping backend reports. With
  a backend that shapes the same buffers and reports whatever status, error or not, on
  each run, layout returns what it returns otherwise: the same flag and the same context.
  In particular, whenever the text is not empty and itemization succeeds, layout returns
  success and the context holds every run with the buffer the backend left for it.
\<close>

theorem layout_ignores_shaper_status:
  "raqm_layout (with_shaper_status status E) rqp = raqm_layout E rqp \<and>
   (rq_text rq \<noteq> [] \<and> raqm_itemize E rq = Some (True, rq1) \<longrightarrow>
      raqm_layout (with_shaper_status status E) (Some rq) =
        Some (True, Some (rq1\<lparr>rq_runs := map (shape_run E rq1) (rq_runs rq1)\<rparr>)))"
proof -
  note eq = layout_ignores_status
  have "raqm_layout E (Some rq) =
        Some (True, Some (rq1\<lparr>rq_runs := map (shape_run E rq1) (rq_runs rq1)\<rparr>))"
    if "rq_text rq \<noteq> []" "raqm_itemize E rq = Some (True, rq1)"
    using that by (simp add: raqm_layout_def raqm_shape_runs_def)
  with eq show ?thesis by simp
qed

text \<open>
  Witness: \<open>a b U+0628 U+0629 c\<close> with the shaper that reports an error on every
  call.
\<close>

theorem layout_ignores_shaper_status_witness:
  "rq_text sample_context \<noteq> [] \<and>
   (\<exists>rq1. raqm_itemize excerpt sample_context = Some (True, rq1) \<and>
      raqm_layout failing_shaper (Some sample_context) =
        Some (True, Some (rq1\<lparr>rq_runs := map (shape_run excerpt rq1) (rq_runs rq1)\<rparr>))) \<and>
   raqm_layout failing_shaper (Some sample_context) = raqm_layout excerpt (Some sample_context)"
proof -
  let ?r = "snd (the (raqm_itemize excerpt sample_context))"
  have ne: "rq_text sample_context \<noteq> []"
    by code_simp
  have it: "raqm_itemize excerpt sample_context = Some (True, ?r)"
    by code_simp
  note t = layout_ignores_shaper_status
    [of "\<lambda>font txt pos len script dir features. False" excerpt _ sample_context ?r,
     folded failing_shaper_def]
  from t ne it have a: "raqm_layout failing_shaper (Some sample_context) =
        Some (True, Some (?r\<lparr>rq_runs := map (shape_run excerpt ?r) (rq_runs ?r)\<rparr>))"
    by blast
  from t [of "Some sample_context"]
  have b: "raqm_layout failing_shaper (Some sample_context) = raqm_layout excerpt (Some sample_context)"
    by blast
  show ?thesis
    by (intro conjI exI [of _ "?r"]) (rule ne it a b)+
qed

text \<open>
  Counterexample to C5 as it was stated: the shaper reports an error for each of the
  three runs of \<open>a b U+0628 U+0629 c\<close>, layout returns success, and
  \<^verbatim>\<open>raqm_get_glyphs\<close> hands out the five glyphs of the three buffers.
\<close>

theorem shaper_error_counterexample:
  "map_option fst (raqm_layout failing_shaper (Some sample_context)) = Some True \<and>
   map run_span (rq_runs (the (snd (the (raqm_layout failing_shaper (Some sample_context)))))) =
     [(0, 2, HB_SCRIPT_LATIN), (2, 2, HB_SCRIPT_ARABIC), (4, 1, HB_SCRIPT_LATIN)] \<and>
   fst (hb_shape_full failing_shaper (rq_font sample_context) (rq_text sample_context)
          0 2 HB_SCRIPT_LATIN HB_DIRECTION_LTR (rq_features sample_context)) = False \<and>
   fst (hb_shape_full failing_shaper (rq_font sample_context) (rq_text sample_context)
          2 2 HB_SCRIPT_ARABIC HB_DIRECTION_RTL (rq_features sample_context)) = False \<and>
   fst (hb_shape_full failing_shaper (rq_font sample_context) (rq_text sample_context)
          4 1 HB_SCRIPT_LATIN HB_DIRECTION_LTR (rq_features sample_context)) = False \<and>
   map_option (\<lambda>r. map glyph_cluster (the (fst (snd r))))
     (raqm_get_glyphs (snd (the (raqm_layout failing_shaper (Some sample_context)))) True) =
     Some [0, 1, 3, 2, 4]"
proof -
  have "map_option fst (raqm_layout failing_shaper (Some sample_context)) = Some True"
    by code_simp
  moreover have "map run_span
      (rq_runs (the (snd (the (raqm_layout failing_shaper (Some sample_context)))))) =
     [(0, 2, HB_SCRIPT_LATIN), (2, 2, HB_SCRIPT_ARABIC), (4, 1, HB_SCRIPT_LATIN)]"
    by code_simp
  moreover have "fst (hb_shape_full failing_shaper font scalars pos len script dir features) = False"
    for font scalars pos len script dir features
    by (simp add: failing_shaper_def with_shaper_status_def)
  moreover have "map_option (\<lambda>r. map glyph_cluster (the (fst (snd r))))
     (raqm_get_glyphs (snd (the (raqm_layout failing_shaper (Some sample_context)))) True) =
     Some [0, 1, 3, 2, 4]"
    by code_simp
  ultimately show ?thesis by (intro conjI)
qed


section \<open>C6: operations on a null context\<close>

text \<open>
  C6 fails on the code at \<^verbatim>\<open>raqm_add_font_feature\<close>, the one mutator without a null
  test: with a feature string that the parser accepts and a null context, the code
  dereferences the null pointer (the model's \<open>None\<close>) instead of doing nothing.
\<close>

theorem add_feature_null_context:
  "hb_feature_from_string excerpt ''liga'' (- 1) = Some (0x6C696761, 1, 0, 0xFFFFFFFF) \<and>
   raqm_add_font_feature excerpt None ''liga'' (- 1) = None"
  by (simp add: raqm_add_font_feature_def excerpt_def feature_excerpt_def)


section \<open>C9: clusters of the byte-oriented entry point\<close>

text \<open>
  C9. Let \<^verbatim>\<open>raqm_shape_u32\<close> on the decoded text return \<open>n\<close> glyphs whose clusters are
  scalar indices, none beyond the length of the decoded text. Then \<^verbatim>\<open>raqm_shape\<close> on
  the bytes returns the same \<open>n\<close> glyphs, each with its cluster \<open>c\<close> replaced by the
  length of the UTF-8 re-encoding of the first \<open>c\<close> decoded scalars and nothing else
  changed. When moreover the encoder distributes over concatenation and re-encoding the
  decoded text gives the bytes back, the bytes before that new cluster are exactly the
  encoding of the first \<open>c\<close> scalars: the cluster is the byte index of scalar \<open>c\<close> in the
  original string.
\<close>

theorem cluster_remapping:
  assumes u32: "raqm_shape_u32 E (fribidi_charset_to_unicode E u8_str) face direction features =
                  Some (n, Some info)"
    and idx: "\<forall>g \<in> set info. unat (glyph_cluster g) \<le> length (fribidi_charset_to_unicode E u8_str)"
  shows "raqm_shape E u8_str face direction features =
           Some (n, Some (map (remap_glyph E (fribidi_charset_to_unicode E u8_str)) info)) \<and>
         n = length info \<and>
         ((\<forall>xs ys. fribidi_unicode_to_charset E (xs @ ys) =
                    fribidi_unicode_to_charset E xs @ fribidi_unicode_to_charset E ys) \<and>
          fribidi_unicode_to_charset E (fribidi_charset_to_unicode E u8_str) = u8_str \<longrightarrow>
          (\<forall>g \<in> set info.
             take (length (fribidi_unicode_to_charset E
                     (take (unat (glyph_cluster g)) (fribidi_charset_to_unicode E u8_str)))) u8_str =
             fribidi_unicode_to_charset E
               (take (unat (glyph_cluster g)) (fribidi_charset_to_unicode E u8_str))))"
proof -
  let ?dec = "fribidi_charset_to_unicode E u8_str"
  let ?buf = "u32_buffer E u8_str"
  from raqm_shape_u32_count [OF u32] have n: "n = length info" .
  have tk: "take (length ?dec) ?buf = ?dec" by (simp add: u32_buffer_def)
  have pre: "take c ?buf = take c ?dec" if "c \<le> length ?dec" for c
    using that by (simp add: u32_buffer_def)
  have same: "remap_glyph E ?buf g = remap_glyph E ?dec g" if "g \<in> set info" for g
    using that idx pre by (simp add: remap_glyph_def)
  have "remap_clusters E ?buf 0 n info = Some (take 0 info @ map (remap_glyph E ?buf) (drop 0 info))"
  proof (rule remap_clusters_map [OF n])
    show "\<forall>k. 0 \<le> k \<and> k < n \<longrightarrow> unat (glyph_cluster (info ! k)) \<le> length ?buf"
    proof (intro allI impI)
      fix k assume "0 \<le> k \<and> k < n"
      with n have "info ! k \<in> set info" by simp
      with idx have "unat (glyph_cluster (info ! k)) \<le> length ?dec" by blast
      also have "\<dots> \<le> length ?buf" by (simp add: u32_buffer_def)
      finally show "unat (glyph_cluster (info ! k)) \<le> length ?buf" .
    qed
  qed simp
  also have "take 0 info @ map (remap_glyph E ?buf) (drop 0 info) = map (remap_glyph E ?dec) info"
    using same by simp
  finally have loop: "remap_clusters E ?buf 0 n info = Some (map (remap_glyph E ?dec) info)" .
  from u32 tk loop have shape: "raqm_shape E u8_str face direction features =
           Some (n, Some (map (remap_glyph E ?dec) info))"
    by (simp add: raqm_shape_def Let_def)
  have off: "take (length (fribidi_unicode_to_charset E (take c ?dec))) u8_str =
             fribidi_unicode_to_charset E (take c ?dec)"
    if hom: "\<forall>xs ys. fribidi_unicode_to_charset E (xs @ ys) =
                    fribidi_unicode_to_charset E xs @ fribidi_unicode_to_charset E ys"
      and rt: "fribidi_unicode_to_charset E ?dec = u8_str" for c
  proof -
    have "u8_str = fribidi_unicode_to_charset E (take c ?dec @ drop c ?dec)"
      using rt by simp
    also have "\<dots> = fribidi_unicode_to_charset E (take c ?dec) @
                     fribidi_unicode_to_charset E (drop c ?dec)"
      using hom by blast
    finally show ?thesis by (metis append_eq_conv_conj)
  qed
  from shape n off show ?thesis by blast
qed

text \<open>
  Witness: the bytes \<open>61 D8 A8 62\<close>, that is \<open>a U+0628 b\<close>: the scalar clusters
  0, 1, 2 become the byte clusters 0, 1, 3.
\<close>

theorem cluster_remapping_witness:
  "\<exists>n info.
     raqm_shape_u32 excerpt (fribidi_charset_to_unicode excerpt [0x61, 0xD8, 0xA8, 0x62]) 7
       RAQM_DIRECTION_DEFAULT None = Some (n, Some info) \<and>
     list_all (\<lambda>g. unat (glyph_cluster g) \<le>
        length (fribidi_charset_to_unicode excerpt [0x61, 0xD8, 0xA8, 0x62])) info \<and>
     map glyph_cluster info = [0, 1, 2] \<and>
     raqm_shape excerpt [0x61, 0xD8, 0xA8, 0x62] 7 RAQM_DIRECTION_DEFAULT None =
       Some (n, Some (map (remap_glyph excerpt
          (fribidi_charset_to_unicode excerpt [0x61, 0xD8, 0xA8, 0x62])) info)) \<and>
     map glyph_cluster (map (remap_glyph excerpt
          (fribidi_charset_to_unicode excerpt [0x61, 0xD8, 0xA8, 0x62])) info) = [0, 1, 3] \<and>
     fribidi_unicode_to_charset excerpt
       (fribidi_charset_to_unicode excerpt [0x61, 0xD8, 0xA8, 0x62]) = [0x61, 0xD8, 0xA8, 0x62] \<and>
     list_all (\<lambda>g.
        take (length (fribidi_unicode_to_charset excerpt (take (unat (glyph_cluster g))
                (fribidi_charset_to_unicode excerpt [0x61, 0xD8, 0xA8, 0x62]))))
          [0x61, 0xD8, 0xA8, 0x62] =
        fribidi_unicode_to_charset excerpt (take (unat (glyph_cluster g))
                (fribidi_charset_to_unicode excerpt [0x61, 0xD8, 0xA8, 0x62]))) info"
proof -
  let ?u8 = "[0x61, 0xD8, 0xA8, 0x62] :: 8 word list"
  let ?dec = "fribidi_charset_to_unicode excerpt ?u8"
  let ?n = "fst (the (raqm_shape_u32 excerpt ?dec 7 RAQM_DIRECTION_DEFAULT None))"
  let ?info = "the (snd (the (raqm_shape_u32 excerpt ?dec 7 RAQM_DIRECTION_DEFAULT None)))"
  have u32: "raqm_shape_u32 excerpt ?dec 7 RAQM_DIRECTION_DEFAULT None = Some (?n, Some ?info)"
    by code_simp
  have idx: "list_all (\<lambda>g. unat (glyph_cluster g) \<le> length ?dec) ?info"
    by code_simp
  have before: "map glyph_cluster ?info = [0, 1, 2]"
    by code_simp
  have after: "map glyph_cluster (map (remap_glyph excerpt ?dec) ?info) = [0, 1, 3]"
    by code_simp
  have hom: "\<forall>xs ys. fribidi_unicode_to_charset excerpt (xs @ ys) =
      fribidi_unicode_to_charset excerpt xs @ fribidi_unicode_to_charset excerpt ys"
    by (simp add: excerpt_def utf8_encode_def)
  have rt: "fribidi_unicode_to_charset excerpt ?dec = ?u8"
    by code_simp
  from idx have idx': "\<forall>g \<in> set ?info. unat (glyph_cluster g) \<le> length ?dec"
    by (simp only: list_all_iff)
  note t = cluster_remapping [OF u32 idx']
  from t have shape: "raqm_shape excerpt ?u8 7 RAQM_DIRECTION_DEFAULT None =
       Some (?n, Some (map (remap_glyph excerpt ?dec) ?info))"
    by blast
  from t hom rt have "\<forall>g \<in> set ?info.
        take (length (fribidi_unicode_to_charset excerpt (take (unat (glyph_cluster g)) ?dec))) ?u8 =
        fribidi_unicode_to_charset excerpt (take (unat (glyph_cluster g)) ?dec)"
    by blast
  then have off: "list_all (\<lambda>g.
        take (length (fribidi_unicode_to_charset excerpt (take (unat (glyph_cluster g)) ?dec))) ?u8 =
        fribidi_unicode_to_charset excerpt (take (unat (glyph_cluster g)) ?dec)) ?info"
    by (simp only: list_all_iff)
  show ?thesis
    by (intro exI [of _ "?n"] exI [of _ "?info"] conjI) (rule u32 idx before shape after rt off)+
qed


section \<open>C10: setting a new text on a laid-out context\<close>

text \<open>
  C10. On a context \<open>rq\<close> that a successful layout has left, \<^verbatim>\<open>raqm_set_text\<close> replaces
  the text (the buffer with its length) and nothing else: the script array, the run list
  and the glyph array are those of \<open>rq\<close>. The script array of \<open>rq\<close> is set, so script
  resolution on the new context returns at once and changes nothing, and whenever a
  layout of the new context returns, with success or not, the script array is still the
  one computed for the earlier text.
\<close>

theorem set_text_keeps_scripts:
  assumes "raqm_layout E (Some rq0) = Some (True, Some rq)"
  shows "\<exists>rq2. raqm_set_text (Some rq) t = Some rq2 \<and>
           rq2 = rq\<lparr>rq_text := t\<rparr> \<and>
           rq_scripts rq2 = rq_scripts rq \<and> rq_runs rq2 = rq_runs rq \<and>
           rq_glyphs rq2 = rq_glyphs rq \<and>
           rq_scripts rq \<noteq> None \<and>
           raqm_resolve_scripts E rq2 = Some (True, rq2) \<and>
           (\<forall>ok rq'. raqm_layout E (Some rq2) = Some (ok, Some rq') \<longrightarrow>
                     rq_scripts rq' = rq_scripts rq)"
proof -
  let ?rq2 = "rq\<lparr>rq_text := t\<rparr>"
  from raqm_layout_shape [OF assms] have sc: "rq_scripts rq \<noteq> None" by auto
  then have res: "raqm_resolve_scripts E ?rq2 = Some (True, ?rq2)"
    by (simp add: raqm_resolve_scripts_def)
  have "rq_scripts rq' = rq_scripts rq" if "raqm_layout E (Some ?rq2) = Some (ok, Some rq')" for ok rq'
    using that res
    by (auto simp: raqm_layout_def raqm_itemize_def raqm_shape_runs_def
          split: if_splits option.splits)
  with sc res show ?thesis by (simp add: raqm_set_text_def)
qed

text \<open>
  Witness: \<open>a b U+0628 U+0629 c\<close> is laid out, the text is replaced by
  \<open>U+0628 U+0629 a b c\<close> and laid out again; the scripts stay Latin, Latin, Arabic,
  Arabic, Latin, although resolving the new text would give Arabic, Arabic, Latin, Latin,
  Latin.
\<close>

theorem set_text_keeps_scripts_witness:
  "\<exists>rq rq2 rq'.
     raqm_layout excerpt (Some sample_context) = Some (True, Some rq) \<and>
     raqm_set_text (Some rq) [0x628, 0x629, 0x61, 0x62, 0x63] = Some rq2 \<and>
     rq_runs rq2 = rq_runs rq \<and>
     raqm_resolve_scripts excerpt rq2 = Some (True, rq2) \<and>
     raqm_layout excerpt (Some rq2) = Some (True, Some rq') \<and>
     rq_scripts rq' = rq_scripts rq \<and>
     rq_scripts rq' =
       Some [HB_SCRIPT_LATIN, HB_SCRIPT_LATIN, HB_SCRIPT_ARABIC, HB_SCRIPT_ARABIC, HB_SCRIPT_LATIN] \<and>
     resolved_scripts (hb_unicode_script excerpt) (rq_text rq') =
       Some [HB_SCRIPT_ARABIC, HB_SCRIPT_ARABIC, HB_SCRIPT_LATIN, HB_SCRIPT_LATIN, HB_SCRIPT_LATIN]"
proof -
  let ?t = "[0x628, 0x629, 0x61, 0x62, 0x63] :: FriBidiChar list"
  let ?rq = "the (snd (the (raqm_layout excerpt (Some sample_context))))"
  let ?rq2 = "?rq\<lparr>rq_text := ?t\<rparr>"
  let ?rq' = "the (snd (the (raqm_layout excerpt (Some ?rq2))))"
  have ok: "raqm_layout excerpt (Some sample_context) = Some (True, Some ?rq)"
    by code_simp
  have ok2: "raqm_layout excerpt (Some ?rq2) = Some (True, Some ?rq')"
    by code_simp
  have old: "rq_scripts ?rq =
       Some [HB_SCRIPT_LATIN, HB_SCRIPT_LATIN, HB_SCRIPT_ARABIC, HB_SCRIPT_ARABIC, HB_SCRIPT_LATIN]"
    by code_simp
  have new: "resolved_scripts (hb_unicode_script excerpt) (rq_text ?rq') =
       Some [HB_SCRIPT_ARABIC, HB_SCRIPT_ARABIC, HB_SCRIPT_LATIN, HB_SCRIPT_LATIN, HB_SCRIPT_LATIN]"
    by code_simp
  from set_text_keeps_scripts [OF ok, of ?t] ok2
  have k: "raqm_set_text (Some ?rq) ?t = Some ?rq2" "rq_runs ?rq2 = rq_runs ?rq"
    "raqm_resolve_scripts excerpt ?rq2 = Some (True, ?rq2)" "rq_scripts ?rq' = rq_scripts ?rq"
    by auto
  from k(4) old have s: "rq_scripts ?rq' =
       Some [HB_SCRIPT_LATIN, HB_SCRIPT_LATIN, HB_SCRIPT_ARABIC, HB_SCRIPT_ARABIC, HB_SCRIPT_LATIN]"
    by simp
  show ?thesis
    by (intro exI [of _ "?rq"] exI [of _ "?rq2"] exI [of _ "?rq'"] conjI) (rule ok ok2 k s new)+
qed

end
